theory Spec2Isabelle
  imports Main "HOL-Library.Word"
begin

unbundle bit_operations_syntax

section \<open>The SYN scanner of nasl/nasl\_builtin\_synscan.c\<close>

text \<open>
  The C source is read on the ABI it is built for in practice, GNU/Linux on x86-64:
  \<^verbatim>\<open>unsigned long\<close> and \<^verbatim>\<open>long\<close> have 64 bits, \<^verbatim>\<open>unsigned int\<close> has 32, the byte order
  is little-endian, so \<^verbatim>\<open>htonl\<close> and \<^verbatim>\<open>ntohl\<close> swap the four bytes of a 32-bit value and
  \<^verbatim>\<open>ntohs\<close> the two bytes of a 16-bit one.

  Every \<^verbatim>\<open>unsigned long\<close> the scanner stores (a sequence number, a send time, the RTT)
  is the result of \<^verbatim>\<open>htonl\<close>, of \<^verbatim>\<open>1 << 28\<close> or of a conversion from \<^verbatim>\<open>unsigned int\<close>, and
  every use passes it through \<^verbatim>\<open>ntohl\<close>, which reads its low 32 bits: such values are
  32-bit words here. The one 64-bit computation whose width shows, the subtraction of
  \<^verbatim>\<open>packetdead\<close>, is written out on 64-bit words.
\<close>

type_synonym u8 = "8 word"
type_synonym u16 = "16 word"
type_synonym u32 = "32 word"
type_synonym u64 = "64 word"

subsection \<open>Byte order\<close>

definition htonl :: "u32 \<Rightarrow> u32" where
  "htonl x = push_bit 24 (x AND 0xFF) OR push_bit 8 (x AND 0xFF00)
             OR drop_bit 8 (x AND 0xFF0000) OR drop_bit 24 (x AND 0xFF000000)"

definition ntohl :: "u32 \<Rightarrow> u32" where
  "ntohl x = htonl x"

definition ntohs :: "u16 \<Rightarrow> u16" where
  "ntohs x = push_bit 8 (x AND 0xFF) OR drop_bit 8 (x AND 0xFF00)"

subsection \<open>The timestamp codec\<close>

text \<open>\<^verbatim>\<open>struct timeval\<close>: both fields are \<^verbatim>\<open>long\<close>; no computation of the scanner leaves
  the 64-bit range, so they are integers.\<close>

record timeval =
  tv_sec :: int
  tv_usec :: int

text \<open>\<^verbatim>\<open>maketime\<close>, as a function of the reading \<^verbatim>\<open>tv\<close> that \<^verbatim>\<open>gettimeofday\<close> stored.
  The masks and shifts act on \<^verbatim>\<open>long\<close> values; \<^verbatim>\<open>htonl\<close> takes the low 32 bits.\<close>

definition maketime :: "timeval \<Rightarrow> u32" where
  "maketime tv =
     (let ret = push_bit 28 (tv_sec tv AND 0x0000000F) OR drop_bit 4 (tv_usec tv AND 0xFFFFFFF0)
      in htonl (word_of_int ret))"

text \<open>The \<^verbatim>\<open>while\<close> loop of \<^verbatim>\<open>timeval\<close> that carries whole seconds out of the microseconds.\<close>

function timeval_carry :: "timeval \<Rightarrow> timeval" where
  "timeval_carry ret =
     (if tv_usec ret \<ge> 1000000
      then timeval_carry (ret\<lparr>tv_usec := tv_usec ret - 1000000, tv_sec := tv_sec ret + 1\<rparr>)
      else ret)"
  by pat_completeness auto
termination
  by (relation "measure (\<lambda>ret. nat (tv_usec ret))") auto

declare timeval_carry.simps [simp del]

text \<open>\<^verbatim>\<open>timeval\<close>: \<^verbatim>\<open>h\<close> and \<^verbatim>\<open>l\<close> are \<^verbatim>\<open>unsigned int\<close>.\<close>

definition timeval :: "u32 \<Rightarrow> timeval" where
  "timeval v =
     (let val = ntohl v;
          h = drop_bit 28 (val AND 0xF0000000);
          l = push_bit 4 (val AND 0x0FFFFFFF);
          ret = timeval_carry \<lparr>tv_sec = uint h, tv_usec = uint l\<rparr>
      in if tv_sec ret > 2 then \<lparr>tv_sec = 2, tv_usec = 0\<rparr> else ret)"

text \<open>\<^verbatim>\<open>compute_rtt\<close>, as a function of the clock reading its \<^verbatim>\<open>maketime\<close> call takes.\<close>

definition compute_rtt :: "timeval \<Rightarrow> u32 \<Rightarrow> u32" where
  "compute_rtt tv thn =
     (let now = maketime tv; a = ntohl now; b = ntohl thn
      in if b > a then 0
         else let res = a - b in htonl (if res \<ge> 2 ^ 28 then 2 ^ 28 else res))"

text \<open>\<^verbatim>\<open>packetdead\<close>: \<^verbatim>\<open>now - then\<close> is a subtraction of \<^verbatim>\<open>unsigned long\<close>, which wraps
  modulo \<open>2^64\<close> when \<^verbatim>\<open>then\<close> is the later of the two; \<^verbatim>\<open>2 << 28\<close> is \<open>2^29\<close>. The
  parameter \<^verbatim>\<open>rtt\<close> is converted and never used. The result 1 is \<open>True\<close>.\<close>

definition packetdead :: "timeval \<Rightarrow> u32 \<Rightarrow> u32 \<Rightarrow> bool" where
  "packetdead tv thn rtt =
     (let now = maketime tv;
          thn' = (ucast (ntohl thn) :: u64);
          now' = (ucast (ntohl now) :: u64)
      in now' - thn' \<ge> 536870912)"

text \<open>The deadline \<^verbatim>\<open>rtt_tv\<close> that \<^verbatim>\<open>sendpacket\<close> derives from \<^verbatim>\<open>*rtt\<close> before it sends.
  All values are non-negative, where C's division and remainder are \<open>div\<close> and \<open>mod\<close>.\<close>

definition sendpacket_rtt_tv :: "u32 \<Rightarrow> timeval" where
  "sendpacket_rtt_tv rtt =
     (let rtt_tv = timeval rtt;
          rtt_tv = rtt_tv\<lparr>tv_sec := tv_sec rtt_tv * 1000\<rparr>;
          rtt_tv = rtt_tv\<lparr>tv_sec := tv_sec rtt_tv div 8\<rparr>;
          rtt_tv = rtt_tv\<lparr>tv_usec := tv_usec rtt_tv + (tv_sec rtt_tv mod 1000) * 1000\<rparr>;
          rtt_tv = rtt_tv\<lparr>tv_sec := tv_sec rtt_tv div 1000\<rparr>
      in if tv_sec rtt_tv \<ge> 1 then \<lparr>tv_sec = 1, tv_usec = 0\<rparr> else rtt_tv)"

subsection \<open>The in-flight table\<close>

text \<open>\<^verbatim>\<open>struct list\<close>: a node of the doubly linked list of outstanding probes. The list is
  a HOL list of its nodes in \<^verbatim>\<open>next\<close> order; \<^verbatim>\<open>NULL\<close> is the empty list. \<^verbatim>\<open>retries\<close> is an
  \<^verbatim>\<open>int\<close> that only ever counts up from 0 by one per transmission.\<close>

record packet =
  dport :: u16
  when' :: u32
  retries :: int

definition NUM_RETRIES :: int where
  "NUM_RETRIES = 2"

fun get_packet :: "packet list \<Rightarrow> u16 \<Rightarrow> packet option" where
  "get_packet [] d = None"
| "get_packet (p # l) d = (if dport p = d then Some p else get_packet l d)"

text \<open>The update \<^verbatim>\<open>add_packet\<close> makes through the pointer \<^verbatim>\<open>get_packet\<close> returned: the
  first node for the port, in place.\<close>

fun retransmit_packet :: "packet list \<Rightarrow> u16 \<Rightarrow> u32 \<Rightarrow> packet list" where
  "retransmit_packet [] d ack = []"
| "retransmit_packet (p # l) d ack =
     (if dport p = d then p\<lparr>retries := retries p + 1, when' := ack\<rparr> # l
      else p # retransmit_packet l d ack)"

definition add_packet :: "packet list \<Rightarrow> u16 \<Rightarrow> u32 \<Rightarrow> packet list" where
  "add_packet l d ack =
     (case get_packet l d of
        Some ret \<Rightarrow> retransmit_packet l d ack
      | None \<Rightarrow> \<lparr>dport = d, when' = ack, retries = 0\<rparr> # l)"

text \<open>Unlinking the node \<^verbatim>\<open>get_packet\<close> found.\<close>

fun unlink_packet :: "packet list \<Rightarrow> u16 \<Rightarrow> packet list" where
  "unlink_packet [] d = []"
| "unlink_packet (p # l) d = (if dport p = d then l else p # unlink_packet l d)"

definition rm_packet :: "packet list \<Rightarrow> u16 \<Rightarrow> packet list" where
  "rm_packet l d = (case get_packet l d of None \<Rightarrow> l | Some p \<Rightarrow> unlink_packet l d)"


subsection \<open>Captured frames\<close>

text \<open>A frame as \<^verbatim>\<open>bpf_next_tv\<close> hands it over: the memory from the pointer it returns
  (byte \<open>i\<close> is \<open>data f i\<close>) and the captured length it stores in \<^verbatim>\<open>len\<close>. The parsers are
  called with the pointer advanced by \<^verbatim>\<open>skip\<close> and with \<^verbatim>\<open>len\<close> as it is, so a pointer is an
  offset into that memory.\<close>

record frame =
  data :: "nat \<Rightarrow> u8"
  caplen :: nat

datatype family = AF_INET | AF_INET6

definition TH_SYN :: u8 where "TH_SYN = 0x02"
definition TH_RST :: u8 where "TH_RST = 0x04"
definition TH_ACK :: u8 where "TH_ACK = 0x10"

text \<open>\<^verbatim>\<open>extracttcp\<close>: \<^verbatim>\<open>ip_hl\<close> is the low nibble of the first byte of the IP header;
  \<^verbatim>\<open>sizeof (struct tcphdr)\<close> is 20. \<open>None\<close> is \<^verbatim>\<open>NULL\<close>.\<close>

definition extracttcp :: "(nat \<Rightarrow> u8) \<Rightarrow> nat \<Rightarrow> nat \<Rightarrow> nat option" where
  "extracttcp m pkt len =
     (let ip_hl = unat (m pkt AND 0x0F)
      in if ip_hl * 4 + 20 > len then None else Some (pkt + ip_hl * 4))"

definition v6_extracttcp :: "(nat \<Rightarrow> u8) \<Rightarrow> nat \<Rightarrow> nat \<Rightarrow> nat option" where
  "v6_extracttcp m pkt len = Some (pkt + 40)"

text \<open>The fields of \<^verbatim>\<open>struct tcphdr\<close> the scanner reads, as the little-endian loads the
  machine does: \<^verbatim>\<open>th_sport\<close> at offset 0, \<^verbatim>\<open>th_ack\<close> at 8, \<^verbatim>\<open>th_flags\<close> at 13.\<close>

definition th_sport :: "(nat \<Rightarrow> u8) \<Rightarrow> nat \<Rightarrow> u16" where
  "th_sport m tcp = ucast (m tcp) OR push_bit 8 (ucast (m (tcp + 1)))"

definition th_ack :: "(nat \<Rightarrow> u8) \<Rightarrow> nat \<Rightarrow> u32" where
  "th_ack m tcp = ucast (m (tcp + 8)) OR push_bit 8 (ucast (m (tcp + 9)))
                  OR push_bit 16 (ucast (m (tcp + 10))) OR push_bit 24 (ucast (m (tcp + 11)))"

definition th_flags :: "(nat \<Rightarrow> u8) \<Rightarrow> nat \<Rightarrow> u8" where
  "th_flags m tcp = m (tcp + 13)"

definition tcp_of :: "(nat \<Rightarrow> u8) \<Rightarrow> nat \<Rightarrow> nat \<Rightarrow> family \<Rightarrow> nat option" where
  "tcp_of m pkt len fam =
     (if fam = AF_INET then extracttcp m pkt len else v6_extracttcp m pkt len)"

text \<open>\<^verbatim>\<open>extractack\<close> returns \<^verbatim>\<open>-1\<close> as \<^verbatim>\<open>unsigned long\<close> on \<^verbatim>\<open>NULL\<close>; its low 32 bits are all
  that \<^verbatim>\<open>unsigned int rack\<close> and \<^verbatim>\<open>ntohl\<close> keep.\<close>

definition extractack :: "(nat \<Rightarrow> u8) \<Rightarrow> nat \<Rightarrow> nat \<Rightarrow> family \<Rightarrow> u32" where
  "extractack m pkt len fam =
     (case tcp_of m pkt len fam of
        None \<Rightarrow> - 1
      | Some tcp \<Rightarrow> htonl (ntohl (th_ack m tcp) - 1))"

definition extractsport :: "(nat \<Rightarrow> u8) \<Rightarrow> nat \<Rightarrow> nat \<Rightarrow> family \<Rightarrow> u16" where
  "extractsport m pkt len fam =
     (case tcp_of m pkt len fam of
        None \<Rightarrow> 0
      | Some tcp \<Rightarrow> ntohs (th_sport m tcp))"

definition issynack :: "(nat \<Rightarrow> u8) \<Rightarrow> nat \<Rightarrow> nat \<Rightarrow> family \<Rightarrow> bool" where
  "issynack m pkt len fam =
     (case tcp_of m pkt len fam of
        None \<Rightarrow> False
      | Some tcp \<Rightarrow> th_flags m tcp = (TH_SYN OR TH_ACK))"

subsection \<open>The environment\<close>

text \<open>What the scanner does to the outside is a trace of events, the most recent first.
  A packet sent is recorded by the arguments \<^verbatim>\<open>mktcp\<close> built it from (destination port,
  sequence number, flag) and by whether \<^verbatim>\<open>sendto\<close> succeeded. \<open>Packets t\<close> is no call: it
  records that \<^verbatim>\<open>scan\<close> assigned the table \<open>t\<close> to its variable \<^verbatim>\<open>packets\<close>. Nor is
  \<open>Rtt_sample v\<close>: it records that \<^verbatim>\<open>find_rtt\<close> computed the sample \<open>v\<close> from a reply.\<close>

datatype event =
    Sendto u16 u32 u8 bool
  | Close_soc
  | Bpf_close
  | Bpf_next_tv timeval
  | Bpf_next
  | Scanner_add_port u16
  | Comm_send_status int int
  | Plug_set_key string
  | Packets "packet list"
  | Rtt_sample u32

text \<open>What the outside does to the scanner: the successive readings of \<^verbatim>\<open>gettimeofday\<close>,
  the successive results of \<^verbatim>\<open>sendto\<close> (\<open>True\<close> is success), and the results of the
  capture calls still to come (\<open>None\<close> is a call that returns \<^verbatim>\<open>NULL\<close>; once the list is
  used up every call returns \<^verbatim>\<open>NULL\<close>, so only finitely many frames arrive).\<close>

record world =
  clock :: "nat \<Rightarrow> timeval"
  ticks :: nat
  sendto_ok :: "nat \<Rightarrow> bool"
  sends :: nat
  captured :: "frame option list"
  trace :: "event list"

definition emit :: "event \<Rightarrow> world \<Rightarrow> world" where
  "emit ev w = w\<lparr>trace := ev # trace w\<rparr>"

definition gettimeofday :: "world \<Rightarrow> timeval \<times> world" where
  "gettimeofday w = (clock w (ticks w), w\<lparr>ticks := Suc (ticks w)\<rparr>)"

definition sendto :: "u16 \<Rightarrow> u32 \<Rightarrow> u8 \<Rightarrow> world \<Rightarrow> bool \<times> world" where
  "sendto d seq flag w =
     (let e = sendto_ok w (sends w)
      in (e, w\<lparr>sends := Suc (sends w), trace := Sendto d seq flag e # trace w\<rparr>))"

definition bpf_next :: "event \<Rightarrow> world \<Rightarrow> frame option \<times> world" where
  "bpf_next ev w =
     (case captured w of
        [] \<Rightarrow> (None, emit ev w)
      | res # rest \<Rightarrow> (res, emit ev (w\<lparr>captured := rest\<rparr>)))"

subsection \<open>The sweep\<close>

text \<open>\<^verbatim>\<open>rm_dead_packets\<close>: the loop over the nodes, with \<^verbatim>\<open>*retry\<close> as an accumulator. Every
  call of \<^verbatim>\<open>packetdead\<close> reads the clock anew. \<^verbatim>\<open>*retry = p->dport\<close> converts the port to
  \<^verbatim>\<open>int\<close>.\<close>

fun rm_dead_loop :: "packet list \<Rightarrow> u32 \<Rightarrow> int \<Rightarrow> world \<Rightarrow> packet list \<times> int \<times> world" where
  "rm_dead_loop [] rtt retry w = ([], retry, w)"
| "rm_dead_loop (p # next) rtt retry w =
     (let (tv, w) = gettimeofday w
      in if packetdead tv (when' p) rtt then
           if retries p < NUM_RETRIES then
             (let (l, retry, w) = rm_dead_loop next rtt (uint (dport p)) w in (p # l, retry, w))
           else rm_dead_loop next rtt retry w
         else (let (l, retry, w) = rm_dead_loop next rtt retry w in (p # l, retry, w)))"

definition rm_dead_packets :: "packet list \<Rightarrow> u32 \<Rightarrow> world \<Rightarrow> packet list \<times> int \<times> world" where
  "rm_dead_packets l rtt w = rm_dead_loop l rtt 0 w"


text \<open>The words of the sweep's description, to state what the loop computes: each entry
  paired with the verdict of the liveness predicate at the clock reading taken when the
  sweep reaches it (reading \<open>n\<close> for the first entry, \<open>n + 1\<close> for the next, and so on);
  an entry is swept when it is dead and its retry count is not below the ceiling, it is a
  retry candidate when it is dead and its retry count is below the ceiling; the retry
  port is that of the last candidate, or the given default.\<close>

fun death_marks :: "(nat \<Rightarrow> timeval) \<Rightarrow> nat \<Rightarrow> u32 \<Rightarrow> packet list \<Rightarrow> (packet \<times> bool) list" where
  "death_marks clk n rtt [] = []"
| "death_marks clk n rtt (p # l) =
     (p, packetdead (clk n) (when' p) rtt) # death_marks clk (Suc n) rtt l"

definition swept :: "packet \<times> bool \<Rightarrow> bool" where
  "swept m = (snd m \<and> NUM_RETRIES \<le> retries (fst m))"

definition retry_candidate :: "packet \<times> bool \<Rightarrow> bool" where
  "retry_candidate m = (snd m \<and> retries (fst m) < NUM_RETRIES)"

definition last_retry :: "int \<Rightarrow> (packet \<times> bool) list \<Rightarrow> int" where
  "last_retry r ms =
     (case filter retry_candidate ms of
        [] \<Rightarrow> r
      | c # cs \<Rightarrow> uint (dport (fst (last (c # cs)))))"

text \<open>The liveness predicate in the words of the description: \<open>now - then\<close>, the
  difference of the two decoded timestamps as integers, is at least \<open>2 * 2^28\<close>. An entry
  is marked with this verdict at the clock reading taken for it. The difference is
  negative when the 16-second clock of the codec has wrapped between the two readings;
  \<open>no_wrap\<close> says that this happens for no entry of the table.\<close>

definition elapsed :: "timeval \<Rightarrow> u32 \<Rightarrow> int" where
  "elapsed tv thn = uint (ntohl (maketime tv)) - uint (ntohl thn)"

fun elapsed_marks :: "(nat \<Rightarrow> timeval) \<Rightarrow> nat \<Rightarrow> packet list \<Rightarrow> (packet \<times> bool) list" where
  "elapsed_marks clk n [] = []"
| "elapsed_marks clk n (p # l) =
     (p, 2 * 2 ^ 28 \<le> elapsed (clk n) (when' p)) # elapsed_marks clk (Suc n) l"

fun no_wrap :: "(nat \<Rightarrow> timeval) \<Rightarrow> nat \<Rightarrow> packet list \<Rightarrow> bool" where
  "no_wrap clk n [] = True"
| "no_wrap clk n (p # l) = (0 \<le> elapsed (clk n) (when' p) \<and> no_wrap clk (Suc n) l)"

subsection \<open>Sending a probe and draining the replies\<close>

text \<open>What \<^verbatim>\<open>sendpacket\<close> does for a captured frame with exactly SYN and ACK set: it
  reports the port, answers with a RST whose sequence number is \<^verbatim>\<open>ack + 1\<close> (the result
  of that \<^verbatim>\<open>sendto\<close> is not looked at), and replaces \<^verbatim>\<open>*rtt\<close> by \<^verbatim>\<open>compute_rtt(rack)\<close>,
  then by \<^verbatim>\<open>1 << 28\<close> if \<^verbatim>\<open>ntohl (*rtt) >= (1 << 28)\<close>.\<close>

definition on_synack :: "u16 \<Rightarrow> u32 \<Rightarrow> u32 \<Rightarrow> world \<Rightarrow> u32 \<times> world" where
  "on_synack sport ack rack w =
     (let w = emit (Scanner_add_port sport) w;
          (e, w) = sendto sport (ack + 1) TH_RST w;
          (tv, w) = gettimeofday w;
          rtt = compute_rtt tv rack;
          rtt = (if ntohl rtt \<ge> 2 ^ 28 then 2 ^ 28 else rtt)
      in (rtt, w))"

lemma captured_emit [simp]: "captured (emit ev w) = captured w"
  by (simp add: emit_def)

lemma captured_gettimeofday [simp]: "captured (snd (gettimeofday w)) = captured w"
  by (simp add: gettimeofday_def)

lemma captured_sendto [simp]: "captured (snd (sendto d s f w)) = captured w"
  by (simp add: sendto_def Let_def)

lemma captured_on_synack [simp]: "captured (snd (on_synack sport ack rack w)) = captured w"
  by (simp add: on_synack_def Let_def split_beta)

lemma captured_bpf_next:
  "bpf_next ev w = (Some res, w') \<Longrightarrow> length (captured w') < length (captured w)"
  by (auto simp: bpf_next_def split: list.splits)

text \<open>The loop of \<^verbatim>\<open>sendpacket\<close> between the label \<^verbatim>\<open>again\<close> and \<^verbatim>\<open>goto again\<close>. Every frame
  has its port removed from the table, whatever its flags; after the first frame the
  deadline is zero.\<close>

function sniff_loop ::
  "nat \<Rightarrow> u32 \<Rightarrow> timeval \<Rightarrow> packet list \<Rightarrow> u32 \<Rightarrow> world \<Rightarrow> packet list \<times> u32 \<times> world" where
  "sniff_loop skip ack rtt_tv packets rtt w =
     (case bpf_next (Bpf_next_tv rtt_tv) w of
        (None, w) \<Rightarrow> (packets, rtt, w)
      | (Some res, w) \<Rightarrow>
          (let sport = extractsport (data res) skip (caplen res) AF_INET;
               synack = issynack (data res) skip (caplen res) AF_INET;
               rack = extractack (data res) skip (caplen res) AF_INET;
               (rtt, w) = (if synack then on_synack sport ack rack w else (rtt, w));
               packets = rm_packet packets sport
           in sniff_loop skip ack \<lparr>tv_sec = 0, tv_usec = 0\<rparr> packets rtt w))"
  by pat_completeness auto
termination
proof (relation "measure (\<lambda>(skip, ack, rtt_tv, packets, rtt, w). length (captured w))", goal_cases)
  case 1
  show ?case by simp
next
  case (2 skip ack rtt_tv packets rtt w x1 w1 res sport synack rack x y z)
  then show ?case
    using captured_bpf_next[of "Bpf_next_tv rtt_tv" w res w1]
          captured_on_synack[of sport ack rack w1]
    by (auto simp: split_beta split: if_splits)
qed

declare sniff_loop.simps [simp del]

text \<open>\<^verbatim>\<open>sendpacket\<close>. The socket, the filter handle, the addresses and the magic port are
  fixed for a run and do not show in the trace; \<^verbatim>\<open>dport\<close> is an \<^verbatim>\<open>int\<close> that \<^verbatim>\<open>add_packet\<close>
  and \<^verbatim>\<open>htons\<close> take as 16 bits; \<open>[]\<close> is the \<^verbatim>\<open>NULL\<close> returned after a failed \<^verbatim>\<open>sendto\<close>.\<close>

definition sendpacket ::
  "nat \<Rightarrow> int \<Rightarrow> packet list \<Rightarrow> u32 \<Rightarrow> bool \<Rightarrow> world \<Rightarrow> packet list \<times> u32 \<times> world" where
  "sendpacket skip dport' packets rtt sniff w =
     (let (tv, w) = gettimeofday w;
          ack = maketime tv;
          rtt_tv = sendpacket_rtt_tv rtt;
          (packets, e, w) =
            (if dport' \<noteq> 0 then
               (let packets = add_packet packets (word_of_int dport') ack;
                    (e, w) = sendto (word_of_int dport') ack TH_SYN w
                in (packets, e, w))
             else (packets, True, w))
      in if \<not> e then ([], rtt, emit Bpf_close (emit Close_soc w))
         else if sniff then sniff_loop skip ack rtt_tv packets rtt w
         else (packets, rtt, w))"

text \<open>\<^verbatim>\<open>v6_sendpacket\<close>: one blocking \<^verbatim>\<open>bpf_next\<close>, no loop, and \<^verbatim>\<open>*rtt\<close> is left alone.\<close>

definition v6_sendpacket ::
  "nat \<Rightarrow> int \<Rightarrow> packet list \<Rightarrow> u32 \<Rightarrow> bool \<Rightarrow> world \<Rightarrow> packet list \<times> u32 \<times> world" where
  "v6_sendpacket skip dport' packets rtt sniff w =
     (let (tv, w) = gettimeofday w;
          ack = maketime tv;
          (packets, e, w) =
            (if dport' \<noteq> 0 then
               (let packets = add_packet packets (word_of_int dport') ack;
                    (e, w) = sendto (word_of_int dport') ack TH_SYN w
                in (packets, e, w))
             else (packets, True, w))
      in if \<not> e then ([], rtt, emit Bpf_close (emit Close_soc w))
         else if sniff then
           (case bpf_next Bpf_next w of
              (None, w) \<Rightarrow> (packets, rtt, w)
            | (Some res, w) \<Rightarrow>
                (let sport = extractsport (data res) skip (caplen res) AF_INET6;
                     synack = issynack (data res) skip (caplen res) AF_INET6;
                     w = (if synack then
                            snd (sendto sport (ack + 1) TH_RST (emit (Scanner_add_port sport) w))
                          else w)
                 in (rm_packet packets sport, rtt, w)))
         else (packets, rtt, w))"

subsection \<open>The scan\<close>

text \<open>What \<^verbatim>\<open>scan\<close> gets from its collaborators, none of them in this file of the source:
  whether the target is IPv4-mapped, the results of \<^verbatim>\<open>socket\<close>, \<^verbatim>\<open>setsockopt\<close> and
  \<^verbatim>\<open>bpf_open_live\<close>, the datalink size, and the port list \<^verbatim>\<open>getpts\<close> returns (\<^verbatim>\<open>num\<close> is its
  length).\<close>

record scan_env =
  v4mapped :: bool
  socket_ret :: int
  setsockopt_ret :: int
  bpf_open_live_ret :: int
  datalink_size :: nat
  ports :: "u16 list"

text \<open>\<^verbatim>\<open>rawsocket\<close>: for IPv4 a failing \<^verbatim>\<open>setsockopt\<close> closes the socket again; for IPv6 its
  result is ignored.\<close>

definition rawsocket :: "family \<Rightarrow> scan_env \<Rightarrow> world \<Rightarrow> int \<times> world" where
  "rawsocket fam env w =
     (if fam = AF_INET then
        (if socket_ret env < 0 then (- 1, w)
         else if setsockopt_ret env < 0 then (- 1, emit Close_soc w)
         else (socket_ret env, w))
      else
        (if socket_ret env < 0 then (- 1, w) else (socket_ret env, w)))"

definition send_probe ::
  "family \<Rightarrow> nat \<Rightarrow> int \<Rightarrow> packet list \<Rightarrow> u32 \<Rightarrow> bool \<Rightarrow> world \<Rightarrow> packet list \<times> u32 \<times> world" where
  "send_probe fam skip dport' packets rtt sniff w =
     (let (packets, rtt, w) =
            (if fam = AF_INET then sendpacket skip dport' packets rtt sniff w
             else v6_sendpacket skip dport' packets rtt sniff w)
      in (packets, rtt, emit (Packets packets) w))"

text \<open>The \<^verbatim>\<open>for\<close> loop of \<^verbatim>\<open>scan\<close> over the port list, two ports a turn, from index \<open>i\<close>
  with the ports from there on: \<^verbatim>\<open>ports[i]\<close> is sent without sniffing, \<^verbatim>\<open>ports[i + 1]\<close>, if
  there is one, with.\<close>

fun scan_ports ::
  "family \<Rightarrow> nat \<Rightarrow> int \<Rightarrow> int \<Rightarrow> u16 list \<Rightarrow> packet list \<Rightarrow> u32 \<Rightarrow> world
   \<Rightarrow> packet list \<times> u32 \<times> world" where
  "scan_ports fam skip i num [] packets rtt w = (packets, rtt, w)"
| "scan_ports fam skip i num [p] packets rtt w =
     (let w = (if i mod 100 = 0 then emit (Comm_send_status i num) w else w)
      in send_probe fam skip (uint p) packets rtt False w)"
| "scan_ports fam skip i num (p # q # rest) packets rtt w =
     (let w = (if i mod 100 = 0 then emit (Comm_send_status i num) w else w);
          (packets, rtt, w) = send_probe fam skip (uint p) packets rtt False w;
          (packets, rtt, w) = send_probe fam skip (uint q) packets rtt True w
      in scan_ports fam skip (i + 2) num rest packets rtt w)"

text \<open>The inner \<^verbatim>\<open>while (retry != 0 && i < 2)\<close> of the tail loop.\<close>

function retry_loop ::
  "nat \<Rightarrow> int \<Rightarrow> int \<Rightarrow> packet list \<Rightarrow> u32 \<Rightarrow> world \<Rightarrow> int \<times> packet list \<times> u32 \<times> world" where
  "retry_loop skip i retry packets rtt w =
     (if retry \<noteq> 0 \<and> i < 2 then
        (let (packets, rtt, w) = send_probe AF_INET skip retry packets rtt False w;
             (packets, retry, w) = rm_dead_packets packets rtt w;
             w = emit (Packets packets) w
         in retry_loop skip (i + 1) retry packets rtt w)
      else (retry, packets, rtt, w))"
  by pat_completeness auto
termination
  by (relation "measure (\<lambda>(skip, i, retry, packets, rtt, w). nat (2 - i))") auto

declare retry_loop.simps [simp del]

text \<open>The tail loop \<^verbatim>\<open>while (packets != NULL)\<close>. Nothing in the code bounds its turns: it
  ends when the clock has carried every entry past its retries. The first argument is the
  number of turns allowed; the first component of the result tells whether the loop ended
  within them.\<close>

fun tail_loop ::
  "nat \<Rightarrow> nat \<Rightarrow> packet list \<Rightarrow> u32 \<Rightarrow> world \<Rightarrow> bool \<times> packet list \<times> u32 \<times> world" where
  "tail_loop fuel skip [] rtt w = (True, [], rtt, w)"
| "tail_loop 0 skip (p # l) rtt w = (False, p # l, rtt, w)"
| "tail_loop (Suc fuel) skip (p # l) rtt w =
     (let (packets, retry, w) = rm_dead_packets (p # l) rtt w;
          w = emit (Packets packets) w;
          (retry, packets, rtt, w) = retry_loop skip 0 retry packets rtt w;
          (packets, rtt, w) = send_probe AF_INET skip retry packets rtt True w
      in tail_loop fuel skip packets rtt w)"

text \<open>\<^verbatim>\<open>scan\<close>. The result is \<open>None\<close> when the tail loop did not end within \<open>fuel\<close> turns,
  and the value returned otherwise.\<close>

definition scan :: "nat \<Rightarrow> scan_env \<Rightarrow> u32 \<Rightarrow> world \<Rightarrow> int option \<times> world" where
  "scan fuel env rtt w =
     (let fam = (if v4mapped env then AF_INET else AF_INET6);
          (soc, w) = rawsocket fam env w;
          num = int (length (ports env))
      in if soc < 0 then (Some (- 1), w)
         else
           (let bpf = bpf_open_live_ret env;
                skip = datalink_size env;
                (packets, rtt, w) = scan_ports fam skip 0 num (ports env) [] rtt w;
                (done, packets, rtt, w) =
                  (if fam = AF_INET then tail_loop fuel skip packets rtt w
                   else (True, packets, rtt, w))
            in if \<not> done then (None, w)
               else
                 (let w = emit (Comm_send_status num num) w;
                      w = emit Close_soc w;
                      w = emit Bpf_close w;
                      w = (if num \<ge> 65535 then emit (Plug_set_key ''Host/full_scan'') w else w)
                  in (Some 0, w))))"


subsection \<open>RTT discovery\<close>







text \<open>The words in which the outcome of the second loop is stated. The capture results
  still to come are a list followed by \<^verbatim>\<open>NULL\<close> for ever; among the first \<open>k\<close> of them,
  \<open>misses\<close> counts the calls without a frame and \<open>replies\<close> those with one. The loop takes
  at most 21 results, and it is cut short when the eleventh miss comes before the tenth
  reply.\<close>

definition capture_at :: "frame option list \<Rightarrow> nat \<Rightarrow> frame option" where
  "capture_at cs i = (if i < length cs then cs ! i else None)"

definition is_reply :: "frame option \<Rightarrow> bool" where
  "is_reply c = (case c of None \<Rightarrow> False | Some res \<Rightarrow> True)"

definition misses :: "frame option list \<Rightarrow> nat \<Rightarrow> nat" where
  "misses cs k = length (filter (\<lambda>i. \<not> is_reply (capture_at cs i)) [0..<k])"

definition replies :: "frame option list \<Rightarrow> nat \<Rightarrow> nat" where
  "replies cs k = length (filter (\<lambda>i. is_reply (capture_at cs i)) [0..<k])"



text \<open>The samples a trace records, in the order they were computed; the samples the
  acceptance rule installs as the new \<^verbatim>\<open>max_max\<close>, that is the accepted ones; and what the
  two maxima are in terms of the accepted samples so far.\<close>

fun samples_of :: "event list \<Rightarrow> u32 list" where
  "samples_of [] = []"
| "samples_of (ev # tr) = samples_of tr @ (case ev of Rtt_sample v \<Rightarrow> [v] | _ \<Rightarrow> [])"





subsection \<open>What holds of every table of a run\<close>

text \<open>A port is probed in a trace when a SYN to it was sent with success.\<close>

definition probed :: "event list \<Rightarrow> u16 \<Rightarrow> bool" where
  "probed tr p =
     list_ex (\<lambda>ev. case ev of Sendto d seq fl ok \<Rightarrow> d = p \<and> fl = TH_SYN \<and> ok | _ \<Rightarrow> False) tr"

text \<open>A trace is in order when every table \<^verbatim>\<open>scan\<close> assigned to \<^verbatim>\<open>packets\<close> held, at that
  moment, only entries with a retry count of at most \<^verbatim>\<open>NUM_RETRIES\<close> whose port had been
  probed before.\<close>

fun trace_ok :: "event list \<Rightarrow> bool" where
  "trace_ok [] = True"
| "trace_ok (ev # tr) =
     ((case ev of
         Packets t \<Rightarrow> list_all (\<lambda>e. retries e \<le> NUM_RETRIES \<and> probed tr (dport e)) t
       | _ \<Rightarrow> True) \<and> trace_ok tr)"

text \<open>The same of the table at hand, with its ports distinct; the invariant of the loops
  of \<^verbatim>\<open>scan\<close>; the ports \<^verbatim>\<open>sendpacket\<close> may be called with (0, a port with no entry, or one
  whose entry has retries left); and what the loops know of \<^verbatim>\<open>retry\<close>.\<close>

definition table_ok :: "event list \<Rightarrow> packet list \<Rightarrow> bool" where
  "table_ok tr t =
     (distinct (map dport t) \<and> (\<forall>e \<in> set t. retries e \<le> NUM_RETRIES \<and> probed tr (dport e)))"

definition scan_inv :: "packet list \<Rightarrow> world \<Rightarrow> bool" where
  "scan_inv t w = (table_ok (trace w) t \<and> trace_ok (trace w))"

definition addable :: "packet list \<Rightarrow> int \<Rightarrow> bool" where
  "addable t d =
     (d = 0 \<or> (case get_packet t (word_of_int d) of None \<Rightarrow> True | Some e \<Rightarrow> retries e < NUM_RETRIES))"

definition retry_ok :: "packet list \<Rightarrow> int \<Rightarrow> bool" where
  "retry_ok t r = (r \<noteq> 0 \<longrightarrow> (\<exists>e \<in> set t. uint (dport e) = r \<and> retries e < NUM_RETRIES))"


subsection \<open>Concrete environments\<close>

text \<open>A capture on Ethernet (datalink size 14) of an IPv4 target, with every open call
  succeeding.\<close>

definition eth_env :: "u16 list \<Rightarrow> scan_env" where
  "eth_env ps = \<lparr>v4mapped = True, socket_ret = 3, setsockopt_ret = 0, bpf_open_live_ret = 0,
     datalink_size = 14, ports = ps\<rparr>"

text \<open>A target that never answers, with a clock that advances three seconds from one
  reading to the next and a \<^verbatim>\<open>sendto\<close> that always succeeds.\<close>

definition silent_world :: world where
  "silent_world = \<lparr>clock = (\<lambda>n. \<lparr>tv_sec = 3 * int n, tv_usec = 0\<rparr>),
     ticks = 0, sendto_ok = (\<lambda>n. True), sends = 0, captured = [], trace = []\<rparr>"

text \<open>The same target behind a \<^verbatim>\<open>sendto\<close> that always fails.\<close>

definition send_failure_world :: world where
  "send_failure_world = silent_world\<lparr>sendto_ok := (\<lambda>n. False)\<rparr>"

text \<open>An Ethernet frame of 54 bytes: IPv4 header of 20 bytes at offset 14 (first byte
  \<open>0x45\<close>), TCP header at offset 34 with source port 80, flags SYN|ACK (byte 47) and the
  acknowledgement number \<open>0xF0000001\<close> (bytes 42 to 45), which answers a SYN whose sequence
  number encodes the time 15 s.\<close>

definition wrap_reply :: frame where
  "wrap_reply = \<lparr>data = (\<lambda>i. if i = 14 then 0x45 else if i = 35 then 0x50
       else if i = 42 then 0xF0 else if i = 45 then 0x01 else if i = 47 then 0x12 else 0),
     caplen = 54\<rparr>"

text \<open>The probe leaves at 15 s of the 16-second clock of the codec, its answer is read
  500 microseconds after the clock has wrapped.\<close>

definition wrap_world :: world where
  "wrap_world = \<lparr>clock = (\<lambda>n. if n = 0 then \<lparr>tv_sec = 15, tv_usec = 0\<rparr>
                            else \<lparr>tv_sec = 16, tv_usec = 500\<rparr>),
     ticks = 0, sendto_ok = (\<lambda>n. True), sends = 0, captured = [Some wrap_reply], trace = []\<rparr>"

text \<open>An Ethernet frame of 70 bytes: the IPv4 header at offset 14 has header length 10
  (first byte \<open>0x4A\<close>, 20 bytes of options), so the TCP header would fill bytes 54 to 73,
  four of them beyond the capture. Source port 80 (bytes 54 and 55) and the flag byte
  SYN|ACK (byte 67) are among the bytes captured.\<close>

definition truncated_synack :: frame where
  "truncated_synack = \<lparr>data = (\<lambda>i. if i = 14 then 0x4A else if i = 55 then 0x50
       else if i = 67 then 0x12 else 0), caplen = 70\<rparr>"

text \<open>A table of three probes sent at 0 s, 0 s and 5 s, and one of two probes sent at 5 s,
  for a sweep by a clock that stands at 5 s.\<close>

definition sweep_table :: "packet list" where
  "sweep_table =
     [\<lparr>dport = 22, when' = maketime \<lparr>tv_sec = 0, tv_usec = 0\<rparr>, retries = 2\<rparr>,
      \<lparr>dport = 80, when' = maketime \<lparr>tv_sec = 0, tv_usec = 0\<rparr>, retries = 1\<rparr>,
      \<lparr>dport = 443, when' = maketime \<lparr>tv_sec = 5, tv_usec = 0\<rparr>, retries = 0\<rparr>]"

definition fresh_table :: "packet list" where
  "fresh_table =
     [\<lparr>dport = 22, when' = maketime \<lparr>tv_sec = 5, tv_usec = 0\<rparr>, retries = 2\<rparr>,
      \<lparr>dport = 80, when' = maketime \<lparr>tv_sec = 5, tv_usec = 0\<rparr>, retries = 0\<rparr>]"

definition sweep_world :: world where
  "sweep_world = \<lparr>clock = (\<lambda>n. \<lparr>tv_sec = 5, tv_usec = 0\<rparr>),
     ticks = 0, sendto_ok = (\<lambda>n. True), sends = 0, captured = [], trace = []\<rparr>"

text \<open>A sweep by a clock that stands at 16 s and 500 microseconds, which the codec
  encodes as 0 s and 496 microseconds; and an environment whose receive filter cannot be
  opened.\<close>

definition wrap_sweep_world :: world where
  "wrap_sweep_world = \<lparr>clock = (\<lambda>n. \<lparr>tv_sec = 16, tv_usec = 500\<rparr>),
     ticks = 0, sendto_ok = (\<lambda>n. True), sends = 0, captured = [], trace = []\<rparr>"

definition filter_failure_env :: scan_env where
  "filter_failure_env = (eth_env [80])\<lparr>bpf_open_live_ret := - 1\<rparr>"

definition truncated_world :: world where
  "truncated_world = silent_world\<lparr>captured := [Some truncated_synack]\<rparr>"






section \<open>Properties\<close>

subsection \<open>Byte order and the codec\<close>

lemma mask_byte0: "(0xFF::u32) = mask 8" by (simp add: mask_eq_exp_minus_1)
lemma mask_byte1: "(0xFF00::u32) = push_bit 8 (mask 8)" by (simp add: mask_eq_exp_minus_1 push_bit_eq_mult)
lemma mask_byte2: "(0xFF0000::u32) = push_bit 16 (mask 8)" by (simp add: mask_eq_exp_minus_1 push_bit_eq_mult)
lemma mask_byte3: "(0xFF000000::u32) = push_bit 24 (mask 8)" by (simp add: mask_eq_exp_minus_1 push_bit_eq_mult)
lemma bit_htonl: "bit (htonl x) n \<longleftrightarrow>
   (if n < 8 then bit x (24 + n) else if n < 16 then bit x (8 + n)
    else if n < 24 then bit x (n - 8) else if n < 32 then bit x (n - 24) else False)"
  unfolding htonl_def mask_byte0 mask_byte1 mask_byte2 mask_byte3
  apply (simp add: bit_simps)
  apply (intro conjI impI)
  apply (auto dest: bit_imp_le_length)
  done
lemma htonl_htonl: "htonl (htonl x) = x"
proof (rule bit_word_eqI)
  fix n assume "n < LENGTH(32)"
  then consider "n < 8" | "8 \<le> n" "n < 16" | "16 \<le> n" "n < 24" | "24 \<le> n" "n < 32"
    by fastforce
  then show "bit (htonl (htonl x)) n = bit x n"
    by cases (auto simp add: bit_htonl)
qed

lemma timeval_carry_small: "tv_usec r < 1000000 \<Longrightarrow> timeval_carry r = r"
  by (simp add: timeval_carry.simps)

lemma timeval_carry_eq:
  "0 \<le> tv_usec r \<Longrightarrow> timeval_carry r = r\<lparr>tv_usec := tv_usec r mod 1000000, tv_sec := tv_sec r + tv_usec r div 1000000\<rparr>"
proof (induction r rule: timeval_carry.induct)
  case (1 ret)
  show ?case
  proof (cases "tv_usec ret \<ge> 1000000")
    case True
    let ?r = "ret\<lparr>tv_usec := tv_usec ret - 1000000, tv_sec := tv_sec ret + 1\<rparr>"
    have "timeval_carry ret = timeval_carry ?r" using True by (subst timeval_carry.simps) simp
    also have "\<dots> = ?r\<lparr>tv_usec := tv_usec ?r mod 1000000, tv_sec := tv_sec ?r + tv_usec ?r div 1000000\<rparr>"
      using 1 True by simp
    also have "\<dots> = ret\<lparr>tv_usec := tv_usec ret mod 1000000, tv_sec := tv_sec ret + tv_usec ret div 1000000\<rparr>"
    proof -
      have a: "(tv_usec ret - 1000000) mod 1000000 = tv_usec ret mod 1000000"
        by (metis mod_diff_right_eq mod_self diff_zero)
      have b: "(tv_usec ret - 1000000) div 1000000 = tv_usec ret div 1000000 - 1"
        using div_add_self2[of 1000000 "tv_usec ret - 1000000"] by simp
      show ?thesis by (simp add: a b)
    qed
    finally show ?thesis .
  next
    case False
    then show ?thesis using 1 by (simp add: timeval_carry.simps)
  qed
qed



lemma int_and_15: "(s::int) AND 0x0000000F = s mod 16"
proof -
  have "s AND 15 = s AND mask 4" by (simp add: mask_eq_exp_minus_1)
  also have "\<dots> = take_bit 4 s" by (simp only: take_bit_eq_mask)
  also have "\<dots> = s mod 16" by (simp add: take_bit_eq_mod)
  finally show ?thesis by simp
qed

lemma int_usec_bits: assumes "0 \<le> u" "u < 1000000" shows "drop_bit 4 ((u::int) AND 0xFFFFFFF0) = u div 16"
proof -
  have m: "drop_bit 4 (0xFFFFFFF0::int) = mask 28" by (simp add: drop_bit_eq_div mask_eq_exp_minus_1)
  have "drop_bit 4 (u AND 0xFFFFFFF0) = drop_bit 4 u AND mask 28"
    by (simp only: drop_bit_and m)
  also have "\<dots> = take_bit 28 (u div 16)" by (simp only: take_bit_eq_mask drop_bit_eq_div) simp
  also have "\<dots> = u div 16" using assms by (simp add: take_bit_eq_mod)
  finally show ?thesis .
qed

lemma int_or_add: "push_bit 28 (a::int) OR take_bit 28 b = push_bit 28 a + take_bit 28 b"
proof -
  have "push_bit 28 a AND take_bit 28 b = 0"
    by (rule bit_eqI) (auto simp: bit_simps)
  then show ?thesis by (simp add: disjunctive_add_eq_or)
qed

lemma maketime_ret: assumes "0 \<le> u" "u < 1000000"
  shows "push_bit 28 ((s::int) AND 0x0000000F) OR drop_bit 4 (u AND 0xFFFFFFF0) = (s mod 16) * 2 ^ 28 + u div 16"
proof -
  have b: "take_bit 28 (u div 16) = u div 16" using assms by (simp add: take_bit_eq_mod)
  have "push_bit 28 (s mod 16) OR (u div 16) = push_bit 28 (s mod 16) + u div 16"
    using int_or_add[of "s mod 16" "u div 16"] by (simp only: b)
  then show ?thesis using assms by (simp only: int_and_15 int_usec_bits push_bit_eq_mult)
qed

lemma word_hi_nibble: "drop_bit 28 ((w::u32) AND 0xF0000000) = drop_bit 28 w"
proof -
  have m: "(0xF0000000::u32) = push_bit 28 (mask 4)" by (simp add: mask_eq_exp_minus_1 push_bit_eq_mult)
  show ?thesis unfolding m
    by (rule bit_word_eqI) (auto simp: bit_simps dest: bit_imp_le_length)
qed
lemma word_lo_bits: "(w::u32) AND 0x0FFFFFFF = take_bit 28 w"
proof -
  have m: "(0x0FFFFFFF::u32) = mask 28" by (simp add: mask_eq_exp_minus_1)
  show ?thesis unfolding m by (simp only: take_bit_eq_mask)
qed
lemma uint_hi: "uint (drop_bit 28 (w::u32)) = uint w div 2 ^ 28"
  by (simp add: drop_bit_eq_div uint_div_distrib)
lemma uint_lo: "uint (push_bit 4 (take_bit 28 (w::u32))) = (uint w mod 2 ^ 28) * 16"
proof -
  have "uint (push_bit 4 (take_bit 28 w)) = take_bit 32 (push_bit 4 (take_bit 28 (uint w)))"
    by (simp add: unsigned_push_bit_eq unsigned_take_bit_eq)
  also have "\<dots> = (uint w mod 2 ^ 28 * 16) mod 2 ^ 32" by (simp add: take_bit_eq_mod push_bit_eq_mult)
  also have "\<dots> = uint w mod 2 ^ 28 * 16"
  proof -
    have "uint w mod 2 ^ 28 < 2 ^ 28" "0 \<le> uint w mod 2 ^ 28" by simp_all
    then show ?thesis by simp
  qed
  finally show ?thesis by simp
qed


lemma ntohl_htonl [simp]: "ntohl (htonl x) = x"
  by (simp add: ntohl_def htonl_htonl)

lemma htonl_ntohl [simp]: "htonl (ntohl x) = x"
  by (simp add: ntohl_def htonl_htonl)

lemma ntohl_maketime:
  assumes "0 \<le> tv_usec tv" "tv_usec tv < 1000000"
  shows "ntohl (maketime tv) = word_of_int (tv_sec tv mod 16 * 2 ^ 28 + tv_usec tv div 16)"
  by (simp only: ntohl_def maketime_def Let_def htonl_htonl maketime_ret[OF assms])

text \<open>
  Claim C7, as the code has it. Encoding a clock reading \<open>(S, U)\<close> with \<open>0 \<le> U < 10^6\<close> by
  \<^verbatim>\<open>maketime\<close> and decoding the result by \<^verbatim>\<open>timeval\<close> gives \<open>(S mod 16, U\<close> rounded down to a
  multiple of 16\<open>)\<close> when \<open>S mod 16 \<le> 2\<close>, and \<open>(2, 0)\<close> otherwise: \<^verbatim>\<open>timeval\<close> clamps
  the seconds at 2.
\<close>

theorem timeval_maketime_roundtrip:
  assumes "0 \<le> tv_usec tv" "tv_usec tv < 1000000"
  shows "timeval (maketime tv) =
    (if tv_sec tv mod 16 \<le> 2 then \<lparr>tv_sec = tv_sec tv mod 16, tv_usec = tv_usec tv div 16 * 16\<rparr>
     else \<lparr>tv_sec = 2, tv_usec = 0\<rparr>)"
proof -
  let ?a = "tv_sec tv mod 16" and ?b = "tv_usec tv div 16"
  let ?v = "?a * 2 ^ 28 + ?b"
  let ?w = "word_of_int ?v :: u32"
  have a: "0 \<le> ?a" "?a < 16" by simp_all
  have b: "0 \<le> ?b" "?b < 62500" using assms by simp_all
  have v: "0 \<le> ?v" "?v < 2 ^ 32" using a b by simp_all
  have uw: "uint ?w = ?v" using v by (subst uint_word_of_int) simp
  have n: "ntohl (maketime tv) = ?w"
    by (rule ntohl_maketime[OF assms])
  have h: "uint (drop_bit 28 (?w AND 0xF0000000)) = ?a"
    using a b by (simp only: word_hi_nibble uint_hi uw) simp
  have l: "uint (push_bit 4 (?w AND 0x0FFFFFFF)) = ?b * 16"
    using a b by (simp only: word_lo_bits uint_lo uw) simp
  have c: "timeval_carry \<lparr>tv_sec = ?a, tv_usec = ?b * 16\<rparr> = \<lparr>tv_sec = ?a, tv_usec = ?b * 16\<rparr>"
    using b by (simp add: timeval_carry_small)
  show ?thesis
    unfolding timeval_def n Let_def h l c by simp
qed

theorem timeval_maketime_roundtrip_witness:
  "timeval (maketime \<lparr>tv_sec = 1700000017, tv_usec = 123457\<rparr>) = \<lparr>tv_sec = 1, tv_usec = 123456\<rparr>
   \<and> timeval (maketime \<lparr>tv_sec = 1700000023, tv_usec = 123457\<rparr>) = \<lparr>tv_sec = 2, tv_usec = 0\<rparr>"
  using timeval_maketime_roundtrip [of "\<lparr>tv_sec = 1700000017, tv_usec = 123457\<rparr>"]
        timeval_maketime_roundtrip [of "\<lparr>tv_sec = 1700000023, tv_usec = 123457\<rparr>"]
  by simp

text \<open>
  Claim C7 as stated fails where the seconds are 3 or more modulo 16: the reading
  \<open>(5, 0)\<close> decodes to \<open>(2, 0)\<close>, not to \<open>(5, 0)\<close>.
\<close>

theorem timeval_maketime_counterexample:
  "timeval (maketime \<lparr>tv_sec = 5, tv_usec = 0\<rparr>) = \<lparr>tv_sec = 2, tv_usec = 0\<rparr>
   \<and> timeval (maketime \<lparr>tv_sec = 5, tv_usec = 0\<rparr>) \<noteq> \<lparr>tv_sec = 5 mod 16, tv_usec = 0 div 16 * 16\<rparr>"
  by (simp add: timeval_def maketime_def ntohl_def htonl_def timeval_carry.simps)

subsection \<open>The in-flight table\<close>

lemma get_packet_None_iff: "get_packet t p = None \<longleftrightarrow> p \<notin> dport ` set t"
  by (induction t) auto

lemma get_packet_Some_dport: "get_packet t p = Some e \<Longrightarrow> dport e = p \<and> e \<in> set t"
  by (induction t) (auto split: if_splits)

lemma get_packet_retransmit_same:
  "get_packet t p = Some e \<Longrightarrow>
   get_packet (retransmit_packet t p w) p = Some (e\<lparr>retries := retries e + 1, when' := w\<rparr>)"
  by (induction t) (auto split: if_splits)

lemma get_packet_retransmit_other:
  "q \<noteq> p \<Longrightarrow> get_packet (retransmit_packet t p w) q = get_packet t q"
  by (induction t) auto

lemma map_dport_retransmit: "map dport (retransmit_packet t p w) = map dport t"
  by (induction t) auto

text \<open>
  Claim C10, as the code has it. When the table \<open>t\<close> has no entry for the port \<open>p\<close>,
  \<^verbatim>\<open>add_packet\<close> prepends a fresh entry with retry count 0, and adding \<open>p\<close> twice leaves
  exactly one entry for \<open>p\<close>, with retry count 1 and the second timestamp. When \<open>t\<close> has an
  entry for \<open>p\<close>, \<^verbatim>\<open>add_packet\<close> increments the retry count of the entry \<^verbatim>\<open>get_packet\<close> finds
  and overwrites its timestamp, and keeps the ports of the table as they are. Entries for
  other ports are found as before.
\<close>

theorem add_packet_twice:
  "(get_packet t p = None \<longrightarrow>
      add_packet t p w1 = \<lparr>dport = p, when' = w1, retries = 0\<rparr> # t \<and>
      filter (\<lambda>e. dport e = p) (add_packet (add_packet t p w1) p w2)
        = [\<lparr>dport = p, when' = w2, retries = 1\<rparr>])
   \<and> (\<forall>e. get_packet t p = Some e \<longrightarrow>
      get_packet (add_packet t p w1) p = Some (e\<lparr>retries := retries e + 1, when' := w1\<rparr>) \<and>
      map dport (add_packet t p w1) = map dport t)
   \<and> (\<forall>q. q \<noteq> p \<longrightarrow> get_packet (add_packet t p w1) q = get_packet t q)"
proof (intro conjI impI allI)
  assume n: "get_packet t p = None"
  then show "add_packet t p w1 = \<lparr>dport = p, when' = w1, retries = 0\<rparr> # t"
    by (simp add: add_packet_def)
  have "filter (\<lambda>e. dport e = p) t = []"
    using n by (auto simp: get_packet_None_iff filter_empty_conv)
  then show "filter (\<lambda>e. dport e = p) (add_packet (add_packet t p w1) p w2)
        = [\<lparr>dport = p, when' = w2, retries = 1\<rparr>]"
    using n by (simp add: add_packet_def)
next
  fix e assume "get_packet t p = Some e"
  then show "get_packet (add_packet t p w1) p = Some (e\<lparr>retries := retries e + 1, when' := w1\<rparr>)"
    by (simp add: add_packet_def get_packet_retransmit_same)
next
  fix e assume "get_packet t p = Some e"
  then show "map dport (add_packet t p w1) = map dport t"
    by (simp add: add_packet_def map_dport_retransmit)
next
  fix q assume "q \<noteq> p"
  then show "get_packet (add_packet t p w1) q = get_packet t q"
    by (cases "get_packet t p") (simp_all add: add_packet_def get_packet_retransmit_other)
qed

theorem add_packet_twice_witness:
  "filter (\<lambda>e. dport e = 80) (add_packet (add_packet [\<lparr>dport = 22, when' = 7, retries = 1\<rparr>] 80 8) 80 9)
     = [\<lparr>dport = 80, when' = 9, retries = 1\<rparr>]
   \<and> get_packet (add_packet [\<lparr>dport = 22, when' = 7, retries = 1\<rparr>] 22 8) 22
     = Some \<lparr>dport = 22, when' = 8, retries = 2\<rparr>
   \<and> get_packet (add_packet [\<lparr>dport = 22, when' = 7, retries = 1\<rparr>] 80 8) 22
     = Some \<lparr>dport = 22, when' = 7, retries = 1\<rparr>"
  using add_packet_twice [of "[\<lparr>dport = 22, when' = 7, retries = 1\<rparr>]" 80 8 9]
        add_packet_twice [of "[\<lparr>dport = 22, when' = 7, retries = 1\<rparr>]" 22 8 9]
  by (simp add: add_packet_def)

text \<open>
  Claim C10 as stated, for every table, fails on a table that already holds the port:
  two more additions bring its retry count to 2, not 1.
\<close>

theorem add_packet_twice_counterexample:
  "add_packet (add_packet [\<lparr>dport = 80, when' = 1, retries = 0\<rparr>] 80 2) 80 3
     = [\<lparr>dport = 80, when' = 3, retries = 2\<rparr>]
   \<and> get_packet (add_packet (add_packet [\<lparr>dport = 80, when' = 1, retries = 0\<rparr>] 80 2) 80 3) 80
     \<noteq> Some \<lparr>dport = 80, when' = 3, retries = 1\<rparr>"
  by (simp add: add_packet_def)


subsection \<open>The sweep\<close>

lemma last_retry_Nil [simp]: "last_retry r [] = r"
  by (simp add: last_retry_def)

lemma last_retry_Cons:
  "last_retry r (m # ms) = last_retry (if retry_candidate m then uint (dport (fst m)) else r) ms"
  by (auto simp: last_retry_def split: list.splits)

lemma rm_dead_loop_eq:
  "rm_dead_loop l rtt r w =
     (map fst (filter (\<lambda>m. \<not> swept m) (death_marks (clock w) (ticks w) rtt l)),
      last_retry r (death_marks (clock w) (ticks w) rtt l),
      w\<lparr>ticks := ticks w + length l\<rparr>)"
proof (induction l arbitrary: r w)
  case Nil
  show ?case by simp
next
  case (Cons p l)
  show ?case
    by (simp add: Cons last_retry_Cons gettimeofday_def swept_def retry_candidate_def Let_def)
qed

lemma packetdead_iff:
  "packetdead tv thn rtt \<longleftrightarrow>
     unat (ntohl (maketime tv)) < unat (ntohl thn)
     \<or> 2 ^ 29 \<le> unat (ntohl (maketime tv)) - unat (ntohl thn)"
proof -
  let ?a = "ntohl (maketime tv)" and ?b = "ntohl thn"
  have a: "unat ?a < 2 ^ 32" and b: "unat ?b < 2 ^ 32"
    using unsigned_less[of ?a, where 'a = nat] unsigned_less[of ?b, where 'a = nat] by simp_all
  have ua: "unat (ucast ?a :: u64) = unat ?a" and ub: "unat (ucast ?b :: u64) = unat ?b"
    using a b by (simp_all add: unsigned_ucast_eq take_bit_nat_eq_self_iff)
  have d: "unat ((ucast ?a :: u64) - ucast ?b) =
      (if unat ?b \<le> unat ?a then unat ?a - unat ?b else unat ?a + 2 ^ 64 - unat ?b)"
    by (simp add: unat_sub_if_size ua ub word_size)
  have "packetdead tv thn rtt \<longleftrightarrow> 2 ^ 29 \<le> unat ((ucast ?a :: u64) - ucast ?b)"
    by (simp add: packetdead_def Let_def word_le_nat_alt)
  also have "\<dots> \<longleftrightarrow> unat ?a < unat ?b \<or> 2 ^ 29 \<le> unat ?a - unat ?b"
    using a b by (auto simp: d)
  finally show ?thesis .
qed

lemma map_fst_death_marks [simp]: "map fst (death_marks clk n rtt l) = l"
  by (induction l arbitrary: n) auto

lemma filter_all_kept: "(\<forall>m \<in> set ms. \<not> P m) \<Longrightarrow> filter (\<lambda>m. \<not> P m) ms = ms"
  by (induction ms) auto

text \<open>
  What the loop computes, in terms of the verdicts of \<^verbatim>\<open>packetdead\<close>: \<^verbatim>\<open>rm_dead_packets\<close>
  keeps, in their order, exactly the entries that are not swept (dead, with a retry count
  not below \<^verbatim>\<open>NUM_RETRIES\<close>, which is 2), and returns as \<^verbatim>\<open>retry\<close> the port of the last dead
  entry with a retry count below the ceiling, or 0 if there is none. On a table whose
  retry counts do not exceed the ceiling the entries removed are the dead ones with retry
  count equal to it. When \<^verbatim>\<open>packetdead\<close> holds of no entry the table comes back unchanged
  with \<^verbatim>\<open>retry\<close> 0.
\<close>

lemma rm_dead_packets_sweep:
  "fst (rm_dead_packets l rtt w)
     = map fst (filter (\<lambda>m. \<not> swept m) (death_marks (clock w) (ticks w) rtt l))
   \<and> fst (snd (rm_dead_packets l rtt w)) = last_retry 0 (death_marks (clock w) (ticks w) rtt l)
   \<and> ((\<forall>e \<in> set l. retries e \<le> NUM_RETRIES) \<longrightarrow>
        fst (rm_dead_packets l rtt w)
          = map fst (filter (\<lambda>m. \<not> (snd m \<and> retries (fst m) = NUM_RETRIES))
                       (death_marks (clock w) (ticks w) rtt l)))
   \<and> ((\<forall>m \<in> set (death_marks (clock w) (ticks w) rtt l). \<not> snd m) \<longrightarrow>
        fst (rm_dead_packets l rtt w) = l \<and> fst (snd (rm_dead_packets l rtt w)) = 0)"
proof (intro conjI impI)
  let ?ms = "death_marks (clock w) (ticks w) rtt l"
  show kept: "fst (rm_dead_packets l rtt w) = map fst (filter (\<lambda>m. \<not> swept m) ?ms)"
    by (simp add: rm_dead_packets_def rm_dead_loop_eq)
  show retry: "fst (snd (rm_dead_packets l rtt w)) = last_retry 0 ?ms"
    by (simp add: rm_dead_packets_def rm_dead_loop_eq)
  {
    assume "\<forall>e \<in> set l. retries e \<le> NUM_RETRIES"
    then have "\<forall>m \<in> set ?ms. retries (fst m) \<le> NUM_RETRIES"
      by (metis image_eqI map_fst_death_marks set_map)
    then have "filter (\<lambda>m. \<not> swept m) ?ms
        = filter (\<lambda>m. \<not> (snd m \<and> retries (fst m) = NUM_RETRIES)) ?ms"
      by (intro filter_cong refl) (auto simp: swept_def)
    then show "fst (rm_dead_packets l rtt w)
        = map fst (filter (\<lambda>m. \<not> (snd m \<and> retries (fst m) = NUM_RETRIES)) ?ms)"
      by (simp add: kept)
  }
  {
    assume alive: "\<forall>m \<in> set ?ms. \<not> snd m"
    then have "filter (\<lambda>m. \<not> swept m) ?ms = ?ms"
      by (intro filter_all_kept) (simp add: swept_def)
    then show "fst (rm_dead_packets l rtt w) = l"
      by (simp add: kept)
    have "filter retry_candidate ?ms = []"
      using alive by (simp add: filter_empty_conv retry_candidate_def)
    then show "fst (snd (rm_dead_packets l rtt w)) = 0"
      by (simp add: retry last_retry_def)
  }
qed

text \<open>
  \<^verbatim>\<open>packetdead\<close> against the liveness predicate of the description. The subtraction of
  the code is one of \<^verbatim>\<open>unsigned long\<close>, 64 bits wide: it gives \<open>now - then\<close> when the
  difference is not negative and a number above \<open>2^63\<close> when it is. So \<^verbatim>\<open>packetdead\<close> holds
  exactly when \<open>now - then\<close> is at least \<open>2 * 2^28\<close> or negative, and the two predicates
  agree on every table no entry of which straddles a wrap of the clock.
\<close>

lemma packetdead_elapsed:
  "packetdead tv thn rtt \<longleftrightarrow> elapsed tv thn < 0 \<or> 2 * 2 ^ 28 \<le> elapsed tv thn"
proof -
  define a b where "a = unat (ntohl (maketime tv))" and "b = unat (ntohl thn)"
  have e: "elapsed tv thn = int a - int b"
    by (simp add: elapsed_def a_def b_def)
  have "packetdead tv thn rtt \<longleftrightarrow> a < b \<or> 2 ^ 29 \<le> a - b"
    unfolding a_def b_def by (rule packetdead_iff)
  also have "\<dots> \<longleftrightarrow> int a - int b < 0 \<or> 2 * 2 ^ 28 \<le> int a - int b"
    by auto
  finally show ?thesis by (simp only: e)
qed

lemma death_marks_no_wrap:
  "no_wrap clk n l \<Longrightarrow> death_marks clk n rtt l = elapsed_marks clk n l"
  by (induction l arbitrary: n) (auto simp: packetdead_elapsed)

text \<open>
  Away from the wrap the sweep is the one described: it removes exactly the entries with
  \<open>now - then \<ge> 2 * 2^28\<close> and a retry count not below the ceiling, returns the port of the
  last entry with \<open>now - then \<ge> 2 * 2^28\<close> and a retry count below the ceiling, or 0, and
  gives back the table unchanged with \<^verbatim>\<open>retry\<close> 0 when every entry has
  \<open>now - then < 2 * 2^28\<close>.
\<close>

lemma rm_dead_packets_no_wrap:
  assumes "no_wrap (clock w) (ticks w) l"
  shows "fst (rm_dead_packets l rtt w)
           = map fst (filter (\<lambda>m. \<not> (snd m \<and> NUM_RETRIES \<le> retries (fst m)))
                        (elapsed_marks (clock w) (ticks w) l))
         \<and> fst (snd (rm_dead_packets l rtt w)) = last_retry 0 (elapsed_marks (clock w) (ticks w) l)
         \<and> ((\<forall>m \<in> set (elapsed_marks (clock w) (ticks w) l). \<not> snd m) \<longrightarrow>
               fst (rm_dead_packets l rtt w) = l \<and> fst (snd (rm_dead_packets l rtt w)) = 0)"
proof -
  let ?em = "elapsed_marks (clock w) (ticks w) l"
  note s = rm_dead_packets_sweep[of l rtt w, unfolded death_marks_no_wrap[OF assms]]
  have k: "fst (rm_dead_packets l rtt w) = map fst (filter (\<lambda>m. \<not> swept m) ?em)"
    using s by blast
  have r: "fst (snd (rm_dead_packets l rtt w)) = last_retry 0 ?em"
    using s by blast
  have a: "(\<forall>m \<in> set ?em. \<not> snd m) \<longrightarrow>
      fst (rm_dead_packets l rtt w) = l \<and> fst (snd (rm_dead_packets l rtt w)) = 0"
    using s by blast
  show ?thesis
    using k r a unfolding swept_def by blast
qed

lemma rm_dead_packets_no_wrap_example:
  "no_wrap (clock sweep_world) (ticks sweep_world) sweep_table
   \<and> no_wrap (clock sweep_world) (ticks sweep_world) fresh_table
   \<and> fst (rm_dead_packets sweep_table (htonl (2 ^ 28)) sweep_world)
     = [\<lparr>dport = 80, when' = maketime \<lparr>tv_sec = 0, tv_usec = 0\<rparr>, retries = 1\<rparr>,
        \<lparr>dport = 443, when' = maketime \<lparr>tv_sec = 5, tv_usec = 0\<rparr>, retries = 0\<rparr>]
   \<and> fst (snd (rm_dead_packets sweep_table (htonl (2 ^ 28)) sweep_world)) = 80
   \<and> fst (rm_dead_packets fresh_table (htonl (2 ^ 28)) sweep_world) = fresh_table
   \<and> fst (snd (rm_dead_packets fresh_table (htonl (2 ^ 28)) sweep_world)) = 0"
proof -
  have n: "no_wrap (clock sweep_world) (ticks sweep_world) sweep_table"
    by code_simp
  have n': "no_wrap (clock sweep_world) (ticks sweep_world) fresh_table"
    by code_simp
  have m: "elapsed_marks (clock sweep_world) (ticks sweep_world) sweep_table
     = [(\<lparr>dport = 22, when' = maketime \<lparr>tv_sec = 0, tv_usec = 0\<rparr>, retries = 2\<rparr>, True),
        (\<lparr>dport = 80, when' = maketime \<lparr>tv_sec = 0, tv_usec = 0\<rparr>, retries = 1\<rparr>, True),
        (\<lparr>dport = 443, when' = maketime \<lparr>tv_sec = 5, tv_usec = 0\<rparr>, retries = 0\<rparr>, False)]"
    by code_simp
  have f: "\<forall>m \<in> set (elapsed_marks (clock sweep_world) (ticks sweep_world) fresh_table). \<not> snd m"
    by code_simp
  have a: "fst (rm_dead_packets sweep_table (htonl (2 ^ 28)) sweep_world)
       = [\<lparr>dport = 80, when' = maketime \<lparr>tv_sec = 0, tv_usec = 0\<rparr>, retries = 1\<rparr>,
          \<lparr>dport = 443, when' = maketime \<lparr>tv_sec = 5, tv_usec = 0\<rparr>, retries = 0\<rparr>]
     \<and> fst (snd (rm_dead_packets sweep_table (htonl (2 ^ 28)) sweep_world)) = 80"
    using rm_dead_packets_no_wrap [OF n, of "htonl (2 ^ 28)"]
    by (simp add: m last_retry_def retry_candidate_def NUM_RETRIES_def)
  have b: "fst (rm_dead_packets fresh_table (htonl (2 ^ 28)) sweep_world) = fresh_table
     \<and> fst (snd (rm_dead_packets fresh_table (htonl (2 ^ 28)) sweep_world)) = 0"
    using rm_dead_packets_no_wrap [OF n', of "htonl (2 ^ 28)"] f by blast
  show ?thesis
    using a b n n' by blast
qed

text \<open>
  Claim C6. The sweep is to remove exactly the entries that are dead, \<open>now - then \<ge> 2 * 2^28\<close>,
  with retry count at the ceiling, to return as \<^verbatim>\<open>retry\<close> the last dead entry below the
  ceiling, and to give back the table unchanged with \<^verbatim>\<open>retry\<close> 0 when every entry has
  \<open>now - then < 2^29\<close>. \<^verbatim>\<open>rm_dead_packets\<close> does so only while the 16-second clock of the codec
  has not wrapped since the entry was stamped. A probe stamped at 15 s and swept at 16 s
  and 500 microseconds is one second old: \<open>now - then\<close> is negative as a difference of
  integers and \<open>0x1000001F\<close> as a difference of 32-bit words, below \<open>2^29\<close> either way. The
  \<^verbatim>\<open>unsigned long\<close> subtraction of \<^verbatim>\<open>packetdead\<close> makes it a number above \<open>2^63\<close>, the probe is
  declared dead, and the sweep removes its entry when the retry count is 2 and returns
  its port as \<^verbatim>\<open>retry\<close> when the count is 0. \<^verbatim>\<open>compute_rtt\<close>, which subtracts the same two
  timestamps, tests \<^verbatim>\<open>b > a\<close> first.
\<close>

theorem rm_dead_packets_at_wrap:
  "elapsed \<lparr>tv_sec = 16, tv_usec = 500\<rparr> (maketime \<lparr>tv_sec = 15, tv_usec = 0\<rparr>) < 2 * 2 ^ 28
   \<and> ntohl (maketime \<lparr>tv_sec = 16, tv_usec = 500\<rparr>) - ntohl (maketime \<lparr>tv_sec = 15, tv_usec = 0\<rparr>)
       < 2 * 2 ^ 28
   \<and> packetdead \<lparr>tv_sec = 16, tv_usec = 500\<rparr> (maketime \<lparr>tv_sec = 15, tv_usec = 0\<rparr>) (htonl (2 ^ 28))
   \<and> fst (rm_dead_packets
            [\<lparr>dport = 80, when' = maketime \<lparr>tv_sec = 15, tv_usec = 0\<rparr>, retries = 2\<rparr>]
            (htonl (2 ^ 28)) wrap_sweep_world) = []
   \<and> fst (snd (rm_dead_packets
            [\<lparr>dport = 80, when' = maketime \<lparr>tv_sec = 15, tv_usec = 0\<rparr>, retries = 0\<rparr>]
            (htonl (2 ^ 28)) wrap_sweep_world)) = 80"
  by code_simp

subsection \<open>The per-iteration deadline\<close>

lemma timeval_range: "0 \<le> tv_sec (timeval v) \<and> tv_sec (timeval v) \<le> 2 \<and> 0 \<le> tv_usec (timeval v)"
proof -
  let ?h = "drop_bit 28 (ntohl v AND 0xF0000000)" and ?l = "push_bit 4 (ntohl v AND 0x0FFFFFFF)"
  have c: "timeval_carry \<lparr>tv_sec = uint ?h, tv_usec = uint ?l\<rparr>
      = \<lparr>tv_sec = uint ?h + uint ?l div 1000000, tv_usec = uint ?l mod 1000000\<rparr>"
    by (subst timeval_carry_eq) simp_all
  have "0 \<le> uint ?h + uint ?l div 1000000"
    by (simp add: pos_imp_zdiv_nonneg_iff)
  then show ?thesis
    unfolding timeval_def Let_def c by simp
qed

text \<open>What the arithmetic of \<^verbatim>\<open>sendpacket\<close> comes to: the decoded seconds are divided by
  eight, the decoded microseconds are added undivided, and the seconds of the result are
  always zero, so the clamp at one second never applies.\<close>

lemma sendpacket_rtt_tv_eq:
  "sendpacket_rtt_tv rtt =
     \<lparr>tv_sec = 0, tv_usec = tv_usec (timeval rtt) + 125000 * tv_sec (timeval rtt)\<rparr>"
proof -
  obtain s u where tv: "timeval rtt = \<lparr>tv_sec = s, tv_usec = u\<rparr>"
    by (cases "timeval rtt") simp
  have "0 \<le> s" "s \<le> 2" using timeval_range[of rtt] by (simp_all add: tv)
  then consider "s = 0" | "s = 1" | "s = 2" by fastforce
  then show ?thesis
    by cases (simp_all add: sendpacket_rtt_tv_def tv)
qed

text \<open>
  Claim C2 at its own example. An RTT that \<^verbatim>\<open>timeval\<close> decodes to 100 ms (\<^verbatim>\<open>*rtt\<close> is
  \<^verbatim>\<open>htonl (6250)\<close>) gives the deadline 100 ms, not 12.5 ms: only the seconds of the
  decoded RTT are divided by eight. An RTT decoded to 1.999984 s gives a deadline of
  1.124984 s, beyond the clamp.
\<close>

theorem sendpacket_deadline_100ms:
  "timeval (htonl 6250) = \<lparr>tv_sec = 0, tv_usec = 100000\<rparr>
   \<and> sendpacket_rtt_tv (htonl 6250) = \<lparr>tv_sec = 0, tv_usec = 100000\<rparr>
   \<and> timeval (htonl 124999) = \<lparr>tv_sec = 1, tv_usec = 999984\<rparr>
   \<and> sendpacket_rtt_tv (htonl 124999) = \<lparr>tv_sec = 0, tv_usec = 1124984\<rparr>"
  by code_simp

subsection \<open>The RTT estimate\<close>

lemma htonl_0 [simp]: "htonl 0 = 0"
  by (simp add: htonl_def)

lemma ntohl_0 [simp]: "ntohl 0 = 0"
  by (simp add: ntohl_def)

lemma ntohl_compute_rtt_le: "ntohl (compute_rtt tv thn) \<le> 2 ^ 28"
  by (auto simp: compute_rtt_def Let_def)

text \<open>The upper half of the bound holds for every reply: after the update, \<^verbatim>\<open>ntohl (*rtt)\<close>
  is at most \<open>2^28\<close>.\<close>

lemma on_synack_rtt_le: "ntohl (fst (on_synack sport ack rack w)) \<le> 2 ^ 28"
proof -
  have "ntohl (2 ^ 28 :: u32) \<le> 2 ^ 28"
    by (simp add: ntohl_def htonl_def)
  then show ?thesis
    using ntohl_compute_rtt_le
    by (simp add: on_synack_def Let_def split_beta)
qed

text \<open>
  Claim C1 at a reply that straddles a wrap of the 16-second clock. The probe for port 80
  is sent at 15 s, its SYN|ACK is read at 16.0005 s: \<^verbatim>\<open>compute_rtt\<close> finds \<^verbatim>\<open>then\<close> later
  than \<^verbatim>\<open>now\<close> and returns 0, and \<^verbatim>\<open>sendpacket\<close> stores that 0 in \<^verbatim>\<open>*rtt\<close>, which was
  \<open>2^28\<close> before. The port is reported and answered with a RST all the same.
\<close>

theorem sendpacket_rtt_zero:
  "fst (snd (sendpacket 14 80 [] (htonl (2 ^ 28)) True wrap_world)) = 0
   \<and> fst (sendpacket 14 80 [] (htonl (2 ^ 28)) True wrap_world) = []
   \<and> rev (trace (snd (snd (sendpacket 14 80 [] (htonl (2 ^ 28)) True wrap_world)))) =
       [Sendto 80 (maketime \<lparr>tv_sec = 15, tv_usec = 0\<rparr>) TH_SYN True,
        Bpf_next_tv \<lparr>tv_sec = 0, tv_usec = 125000\<rparr>,
        Scanner_add_port 80,
        Sendto 80 (maketime \<lparr>tv_sec = 15, tv_usec = 0\<rparr> + 1) TH_RST True,
        Bpf_next_tv \<lparr>tv_sec = 0, tv_usec = 0\<rparr>]"
  by code_simp

subsection \<open>A failing \<^verbatim>\<open>sendto\<close>\<close>

text \<open>The sending routine itself does what the claim says: it closes the socket and the
  filter and returns \<^verbatim>\<open>NULL\<close>.\<close>

lemma sendpacket_send_failure:
  assumes "dport' \<noteq> 0" "\<not> sendto_ok w (sends w)"
  shows "sendpacket skip dport' packets rtt sniff w =
           ([], rtt, w\<lparr>ticks := Suc (ticks w), sends := Suc (sends w),
              trace := Bpf_close # Close_soc
                # Sendto (word_of_int dport') (maketime (clock w (ticks w))) TH_SYN False # trace w\<rparr>)"
  using assms
  by (simp add: sendpacket_def gettimeofday_def sendto_def emit_def Let_def)

text \<open>
  Claim C3 on the port list 80, 443, 22 with a \<^verbatim>\<open>sendto\<close> that fails from the first call
  on. \<^verbatim>\<open>scan\<close> does not look at what \<^verbatim>\<open>sendpacket\<close> returned: after the first failure has
  closed the socket and the filter it goes on to call \<^verbatim>\<open>sendto\<close> for 443 and for 22, closes
  both handles after each failure and once more at its end, and returns 0. The trace is
  in the order of the calls.
\<close>

theorem scan_continues_after_send_failure:
  "fst (scan 10 (eth_env [80, 443, 22]) (htonl (2 ^ 28)) send_failure_world) = Some 0
   \<and> rev (trace (snd (scan 10 (eth_env [80, 443, 22]) (htonl (2 ^ 28)) send_failure_world))) =
     [Comm_send_status 0 3,
      Sendto 80 (maketime \<lparr>tv_sec = 0, tv_usec = 0\<rparr>) TH_SYN False, Close_soc, Bpf_close, Packets [],
      Sendto 443 (maketime \<lparr>tv_sec = 3, tv_usec = 0\<rparr>) TH_SYN False, Close_soc, Bpf_close, Packets [],
      Sendto 22 (maketime \<lparr>tv_sec = 6, tv_usec = 0\<rparr>) TH_SYN False, Close_soc, Bpf_close, Packets [],
      Comm_send_status 3 3, Close_soc, Bpf_close]"
  by code_simp

subsection \<open>Frames cut short\<close>

lemma tcp_of_short:
  "caplen f < unat (data f skip AND 0x0F) * 4 + 20 \<Longrightarrow> tcp_of (data f) skip (caplen f) AF_INET = None"
  by (simp add: tcp_of_def extracttcp_def Let_def)

lemma rm_packet_absent: "p \<notin> dport ` set t \<Longrightarrow> rm_packet t p = t"
  by (simp add: rm_packet_def get_packet_None_iff[symmetric])

text \<open>Where the test of \<^verbatim>\<open>extracttcp\<close> does fail, that is where the captured length is less
  than the IP header length plus 20, not counting the datalink bytes, the frame is
  ignored as the claim says: no port is reported, nothing is sent, the RTT and a table
  without an entry for port 0 stay as they are.\<close>

lemma sniff_loop_short_frame:
  assumes "captured w = Some f # rest"
      and "caplen f < unat (data f skip AND 0x0F) * 4 + 20"
      and "0 \<notin> dport ` set packets"
  shows "sniff_loop skip ack rtt_tv packets rtt w =
         sniff_loop skip ack \<lparr>tv_sec = 0, tv_usec = 0\<rparr> packets rtt
           (emit (Bpf_next_tv rtt_tv) (w\<lparr>captured := rest\<rparr>))"
  using assms
  by (subst sniff_loop.simps)
     (simp add: bpf_next_def extractsport_def issynack_def tcp_of_short rm_packet_absent)

text \<open>
  Claim C9 on an Ethernet capture (\<^verbatim>\<open>skip\<close> is 14). The frame has 70 bytes, its TCP
  header would end at byte 74. \<^verbatim>\<open>extracttcp\<close> is given the pointer advanced by 14 and the
  length 70 of the whole frame, compares \<open>10 * 4 + 20 = 60\<close> with 70 and accepts:
  \<^verbatim>\<open>extractsport\<close> returns 80, not 0, the port is reported open, a RST is sent, the entry
  for port 80 leaves the table and the RTT is overwritten.
\<close>

theorem truncated_frame_not_ignored:
  "extractsport (data truncated_synack) 14 (caplen truncated_synack) AF_INET = 80
   \<and> issynack (data truncated_synack) 14 (caplen truncated_synack) AF_INET
   \<and> fst (sendpacket 14 0 [\<lparr>dport = 80, when' = 0, retries = 0\<rparr>] (htonl (2 ^ 28)) True
          truncated_world) = []
   \<and> fst (snd (sendpacket 14 0 [\<lparr>dport = 80, when' = 0, retries = 0\<rparr>] (htonl (2 ^ 28)) True
          truncated_world)) = 0
   \<and> rev (trace (snd (snd (sendpacket 14 0 [\<lparr>dport = 80, when' = 0, retries = 0\<rparr>]
          (htonl (2 ^ 28)) True truncated_world)))) =
       [Bpf_next_tv \<lparr>tv_sec = 0, tv_usec = 125000\<rparr>,
        Scanner_add_port 80,
        Sendto 80 (maketime \<lparr>tv_sec = 0, tv_usec = 0\<rparr> + 1) TH_RST True,
        Bpf_next_tv \<lparr>tv_sec = 0, tv_usec = 0\<rparr>]"
  by code_simp


subsection \<open>The retry counts of a run\<close>

lemma probed_Cons: "probed tr p \<Longrightarrow> probed (ev # tr) p"
  by (simp add: probed_def)

lemma probed_Sendto: "probed (Sendto p seq TH_SYN True # tr) p"
  by (simp add: probed_def)

lemma table_ok_Cons: "table_ok tr t \<Longrightarrow> table_ok (ev # tr) t"
  by (auto simp: table_ok_def probed_Cons)

lemma table_ok_Nil [simp]: "table_ok tr []"
  by (simp add: table_ok_def)

lemma scan_inv_emit:
  "scan_inv t w \<Longrightarrow> (\<And>t'. ev \<noteq> Packets t') \<Longrightarrow> scan_inv t (emit ev w)"
  by (cases ev) (auto simp: scan_inv_def emit_def table_ok_Cons)

lemma scan_inv_emit_Packets: "scan_inv t w \<Longrightarrow> scan_inv t (emit (Packets t) w)"
  by (auto simp: scan_inv_def emit_def table_ok_def list_all_iff probed_Cons)

lemma scan_inv_empty: "scan_inv t w \<Longrightarrow> scan_inv [] w"
  by (simp add: scan_inv_def)

lemma scan_inv_gettimeofday: "scan_inv t w \<Longrightarrow> scan_inv t (snd (gettimeofday w))"
  by (simp add: scan_inv_def gettimeofday_def)

lemma scan_inv_sendto: "scan_inv t w \<Longrightarrow> scan_inv t (snd (sendto d s f w))"
  by (simp add: scan_inv_def sendto_def Let_def table_ok_Cons)

lemma scan_inv_bpf_next:
  "scan_inv t w \<Longrightarrow> (\<And>t'. ev \<noteq> Packets t') \<Longrightarrow> scan_inv t (snd (bpf_next ev w))"
  using scan_inv_emit[of t _ ev]
  by (auto simp: bpf_next_def scan_inv_def emit_def split: list.splits)

lemma scan_inv_on_synack: "scan_inv t w \<Longrightarrow> scan_inv t (snd (on_synack sport ack rack w))"
  by (simp add: on_synack_def Let_def split_beta scan_inv_gettimeofday scan_inv_sendto scan_inv_emit)

lemma set_unlink_packet: "set (unlink_packet t p) \<subseteq> set t"
  by (induction t) auto

lemma distinct_unlink_packet: "distinct (map dport t) \<Longrightarrow> distinct (map dport (unlink_packet t p))"
proof (induction t)
  case Nil
  show ?case by simp
next
  case (Cons a t)
  have "dport ` set (unlink_packet t p) \<subseteq> dport ` set t"
    using set_unlink_packet[of t p] by blast
  then show ?case using Cons by auto
qed

lemma set_rm_packet: "set (rm_packet t p) \<subseteq> set t"
  using set_unlink_packet by (auto simp: rm_packet_def split: option.splits)

lemma table_ok_rm_packet: "table_ok tr t \<Longrightarrow> table_ok tr (rm_packet t p)"
  using set_unlink_packet[of t p]
  by (auto simp: table_ok_def rm_packet_def distinct_unlink_packet split: option.splits)

lemma scan_inv_rm_packet: "scan_inv t w \<Longrightarrow> scan_inv (rm_packet t p) w"
  by (simp add: scan_inv_def table_ok_rm_packet)

lemma sniff_loop_inv:
  "scan_inv packets w \<Longrightarrow>
   scan_inv (fst (sniff_loop skip ack rtt_tv packets rtt w))
            (snd (snd (sniff_loop skip ack rtt_tv packets rtt w)))
   \<and> set (fst (sniff_loop skip ack rtt_tv packets rtt w)) \<subseteq> set packets"
proof (induction skip ack rtt_tv packets rtt w rule: sniff_loop.induct)
  case (1 skip ack rtt_tv packets rtt w)
  obtain res w1 where b: "bpf_next (Bpf_next_tv rtt_tv) w = (res, w1)"
    by (cases "bpf_next (Bpf_next_tv rtt_tv) w")
  have i1: "scan_inv packets w1"
    using scan_inv_bpf_next[OF "1.prems", of "Bpf_next_tv rtt_tv"] b by simp
  show ?case
  proof (cases res)
    case None
    then show ?thesis using b i1 by (subst (1 2 3) sniff_loop.simps) simp
  next
    case (Some f)
    let ?sport = "extractsport (data f) skip (caplen f) AF_INET"
    let ?synack = "issynack (data f) skip (caplen f) AF_INET"
    let ?rack = "extractack (data f) skip (caplen f) AF_INET"
    obtain rtt2 w2 where s: "(if ?synack then on_synack ?sport ack ?rack w1 else (rtt, w1)) = (rtt2, w2)"
      by (cases "if ?synack then on_synack ?sport ack ?rack w1 else (rtt, w1)")
    have i2: "scan_inv packets w2"
      using s i1 scan_inv_on_synack[of packets w1 ?sport ack ?rack]
      by (auto split: if_splits)
    have i3: "scan_inv (rm_packet packets ?sport) w2"
      using i2 by (rule scan_inv_rm_packet)
    have ih: "scan_inv (fst (sniff_loop skip ack \<lparr>tv_sec = 0, tv_usec = 0\<rparr> (rm_packet packets ?sport) rtt2 w2))
            (snd (snd (sniff_loop skip ack \<lparr>tv_sec = 0, tv_usec = 0\<rparr> (rm_packet packets ?sport) rtt2 w2)))
       \<and> set (fst (sniff_loop skip ack \<lparr>tv_sec = 0, tv_usec = 0\<rparr> (rm_packet packets ?sport) rtt2 w2))
            \<subseteq> set (rm_packet packets ?sport)"
      using "1.IH"[OF b[symmetric] Some refl refl refl s[symmetric] refl refl i3] by simp
    have e: "sniff_loop skip ack rtt_tv packets rtt w
        = sniff_loop skip ack \<lparr>tv_sec = 0, tv_usec = 0\<rparr> (rm_packet packets ?sport) rtt2 w2"
      using b Some s by (subst sniff_loop.simps) (simp add: Let_def)
    show ?thesis
      using ih set_rm_packet[of packets ?sport] unfolding e by auto
  qed
qed

lemma word_of_int_uint16 [simp]: "word_of_int (uint (p::u16)) = p"
  by simp

lemma get_packet_distinct:
  "distinct (map dport t) \<Longrightarrow> e \<in> set t \<Longrightarrow> get_packet t (dport e) = Some e"
  by (induction t) (auto simp: image_iff)

lemma set_retransmit_packet:
  "get_packet t p = Some e \<Longrightarrow> distinct (map dport t) \<Longrightarrow>
   set (retransmit_packet t p ack) = insert (e\<lparr>retries := retries e + 1, when' := ack\<rparr>) (set t - {e})"
proof (induction t)
  case Nil
  then show ?case by simp
next
  case (Cons a t)
  show ?case
  proof (cases "dport a = p")
    case True
    then have "a = e" using Cons.prems by simp
    moreover have "a \<notin> set t" using Cons.prems by auto
    ultimately show ?thesis using True by auto
  next
    case False
    then have "e \<in> set t" "a \<noteq> e" using Cons.prems get_packet_Some_dport[of t p e] by auto
    then show ?thesis using False Cons by auto
  qed
qed

lemma table_ok_add_packet:
  assumes "table_ok tr t"
      and "case get_packet t p of None \<Rightarrow> True | Some e \<Rightarrow> retries e < NUM_RETRIES"
  shows "table_ok (Sendto p ack TH_SYN True # tr) (add_packet t p ack)"
proof (cases "get_packet t p")
  case None
  then have "p \<notin> dport ` set t" by (simp add: get_packet_None_iff)
  then show ?thesis
    using assms None
    by (auto simp: table_ok_def add_packet_def probed_Cons probed_Sendto NUM_RETRIES_def)
next
  case (Some e)
  have d: "distinct (map dport t)" using assms(1) by (simp add: table_ok_def)
  have s: "set (retransmit_packet t p ack) = insert (e\<lparr>retries := retries e + 1, when' := ack\<rparr>) (set t - {e})"
    using set_retransmit_packet[OF Some d] .
  have e: "dport e = p" "e \<in> set t" "retries e < NUM_RETRIES"
    using get_packet_Some_dport[OF Some] assms(2) Some by simp_all
  have "distinct (map dport (retransmit_packet t p ack))"
    using d by (simp add: map_dport_retransmit)
  then show ?thesis
    using assms(1) Some s e
    by (auto simp: table_ok_def add_packet_def probed_Cons probed_Sendto)
qed

lemma dport_add_packet: "dport ` set (add_packet t p ack) = insert p (dport ` set t)"
proof (cases "get_packet t p")
  case None
  then show ?thesis by (simp add: add_packet_def)
next
  case (Some e)
  have "dport ` set (retransmit_packet t p ack) = dport ` set t"
    using map_dport_retransmit[of t p ack] by (metis set_map)
  moreover have "p \<in> dport ` set t"
    using get_packet_Some_dport[OF Some] by auto
  ultimately show ?thesis using Some by (auto simp: add_packet_def)
qed

lemma sendpacket_inv:
  assumes "scan_inv packets w" and "addable packets d"
  shows "scan_inv (fst (sendpacket skip d packets rtt sniff w))
                  (snd (snd (sendpacket skip d packets rtt sniff w)))
         \<and> dport ` set (fst (sendpacket skip d packets rtt sniff w))
             \<subseteq> (if d = 0 then {} else {word_of_int d}) \<union> dport ` set packets"
proof -
  obtain tv w1 where g: "gettimeofday w = (tv, w1)" by (cases "gettimeofday w")
  have i1: "scan_inv packets w1" using scan_inv_gettimeofday[OF assms(1)] g by simp
  let ?ack = "maketime tv"
  show ?thesis
  proof (cases "d = 0")
    case True
    show ?thesis
    proof (cases sniff)
      case True
      then show ?thesis
        using \<open>d = 0\<close> g sniff_loop_inv[OF i1, of skip ?ack "sendpacket_rtt_tv rtt" rtt]
        by (auto simp: sendpacket_def Let_def)
    next
      case False
      then show ?thesis using \<open>d = 0\<close> g i1 by (simp add: sendpacket_def Let_def)
    qed
  next
    case False
    let ?p = "word_of_int d :: u16"
    let ?t = "add_packet packets ?p ?ack"
    obtain e w2 where s: "sendto ?p ?ack TH_SYN w1 = (e, w2)" by (cases "sendto ?p ?ack TH_SYN w1")
    have tr2: "trace w2 = Sendto ?p ?ack TH_SYN e # trace w1"
      using s by (auto simp: sendto_def Let_def)
    have ok2: "trace_ok (trace w2)" using i1 tr2 by (simp add: scan_inv_def)
    show ?thesis
    proof (cases e)
      case False
      have "scan_inv [] (emit Bpf_close (emit Close_soc w2))"
        using ok2 by (simp add: scan_inv_def emit_def)
      then show ?thesis
        using \<open>d \<noteq> 0\<close> g s False by (simp add: sendpacket_def Let_def)
    next
      case True
      have "table_ok (trace w2) ?t"
        using table_ok_add_packet[of "trace w1" packets ?p ?ack] i1 assms(2) \<open>d \<noteq> 0\<close> True
        by (simp add: tr2 scan_inv_def addable_def)
      then have i2: "scan_inv ?t w2" using ok2 by (simp add: scan_inv_def)
      show ?thesis
      proof (cases sniff)
        case True
        have "dport ` set (fst (sniff_loop skip ?ack (sendpacket_rtt_tv rtt) ?t rtt w2)) \<subseteq> dport ` set ?t"
          using sniff_loop_inv[OF i2, of skip ?ack "sendpacket_rtt_tv rtt" rtt] by blast
        then show ?thesis
          using \<open>d \<noteq> 0\<close> g s \<open>e\<close> True sniff_loop_inv[OF i2, of skip ?ack "sendpacket_rtt_tv rtt" rtt]
          by (simp add: sendpacket_def Let_def dport_add_packet)
      next
        case False
        then show ?thesis
          using \<open>d \<noteq> 0\<close> g s \<open>e\<close> i2 by (simp add: sendpacket_def Let_def dport_add_packet)
      qed
    qed
  qed
qed

lemma v6_sendpacket_inv:
  assumes "scan_inv packets w" and "addable packets d"
  shows "scan_inv (fst (v6_sendpacket skip d packets rtt sniff w))
                  (snd (snd (v6_sendpacket skip d packets rtt sniff w)))
         \<and> dport ` set (fst (v6_sendpacket skip d packets rtt sniff w))
             \<subseteq> (if d = 0 then {} else {word_of_int d}) \<union> dport ` set packets"
proof -
  obtain tv w1 where g: "gettimeofday w = (tv, w1)" by (cases "gettimeofday w")
  have i1: "scan_inv packets w1" using scan_inv_gettimeofday[OF assms(1)] g by simp
  let ?ack = "maketime tv"
  let ?p = "word_of_int d :: u16"
  define t1 where "t1 = (if d \<noteq> 0 then add_packet packets ?p ?ack else packets)"
  define e where "e = (if d \<noteq> 0 then fst (sendto ?p ?ack TH_SYN w1) else True)"
  define w2 where "w2 = (if d \<noteq> 0 then snd (sendto ?p ?ack TH_SYN w1) else w1)"
  have pre: "(if d \<noteq> 0 then
               (let packets = add_packet packets ?p ?ack; (e, w) = sendto ?p ?ack TH_SYN w1
                in (packets, e, w))
             else (packets, True, w1)) = (t1, e, w2)"
    by (simp add: t1_def e_def w2_def Let_def split_beta)
  have ok2: "trace_ok (trace w2)"
    using i1 by (auto simp: w2_def scan_inv_def sendto_def Let_def)
  have sub: "dport ` set t1 \<subseteq> (if d = 0 then {} else {word_of_int d}) \<union> dport ` set packets"
    by (auto simp: t1_def dport_add_packet)
  show ?thesis
  proof (cases e)
    case False
    have "scan_inv [] (emit Bpf_close (emit Close_soc w2))"
      using ok2 by (simp add: scan_inv_def emit_def)
    then show ?thesis
      using g pre False by (simp add: v6_sendpacket_def Let_def)
  next
    case True
    have i2: "scan_inv t1 w2"
    proof (cases "d = 0")
      case True
      then show ?thesis using i1 by (simp add: t1_def w2_def)
    next
      case False
      have "trace w2 = Sendto ?p ?ack TH_SYN True # trace w1"
        using False \<open>e\<close> by (auto simp: w2_def e_def sendto_def Let_def)
      then show ?thesis
        using table_ok_add_packet[of "trace w1" packets ?p ?ack] i1 assms(2) False ok2
        by (simp add: t1_def scan_inv_def addable_def)
    qed
    show ?thesis
    proof (cases sniff)
      case False
      then show ?thesis using g pre \<open>e\<close> i2 sub by (simp add: v6_sendpacket_def Let_def)
    next
      case True
      obtain res w3 where b: "bpf_next Bpf_next w2 = (res, w3)" by (cases "bpf_next Bpf_next w2")
      have i3: "scan_inv t1 w3" using scan_inv_bpf_next[OF i2, of Bpf_next] b by simp
      show ?thesis
      proof (cases res)
        case None
        then show ?thesis using g pre \<open>e\<close> True b i3 sub by (simp add: v6_sendpacket_def Let_def)
      next
        case (Some f)
        let ?sport = "extractsport (data f) skip (caplen f) AF_INET6"
        let ?w4 = "if issynack (data f) skip (caplen f) AF_INET6 then
                     snd (sendto ?sport (?ack + 1) TH_RST (emit (Scanner_add_port ?sport) w3)) else w3"
        have "scan_inv t1 ?w4"
          using i3 by (simp add: scan_inv_sendto scan_inv_emit)
        then have i4: "scan_inv (rm_packet t1 ?sport) ?w4" by (rule scan_inv_rm_packet)
        have "dport ` set (rm_packet t1 ?sport) \<subseteq> dport ` set t1"
          using set_rm_packet[of t1 ?sport] by blast
        then show ?thesis
          using g pre \<open>e\<close> True b Some i4 sub by (simp add: v6_sendpacket_def Let_def)
      qed
    qed
  qed
qed

lemma send_probe_inv:
  assumes "scan_inv packets w" and "addable packets d"
  shows "scan_inv (fst (send_probe fam skip d packets rtt sniff w))
                  (snd (snd (send_probe fam skip d packets rtt sniff w)))
         \<and> dport ` set (fst (send_probe fam skip d packets rtt sniff w))
             \<subseteq> (if d = 0 then {} else {word_of_int d}) \<union> dport ` set packets"
  using sendpacket_inv[OF assms, of skip rtt sniff] v6_sendpacket_inv[OF assms, of skip rtt sniff]
  by (auto simp: send_probe_def split_beta Let_def scan_inv_emit_Packets)

lemma addable_fresh: "p \<notin> dport ` set t \<Longrightarrow> addable t (uint (p::u16))"
  by (simp add: addable_def get_packet_None_iff[symmetric])

lemma scan_ports_inv:
  assumes "scan_inv packets w" "distinct ps" "dport ` set packets \<inter> set ps = {}"
  shows "scan_inv (fst (scan_ports fam skip i num ps packets rtt w))
                  (snd (snd (scan_ports fam skip i num ps packets rtt w)))"
  using assms
proof (induction fam skip i num ps packets rtt w rule: scan_ports.induct)
  case (1 fam skip i num packets rtt w)
  then show ?case by simp
next
  case (2 fam skip i num p packets rtt w)
  let ?w = "if i mod 100 = 0 then emit (Comm_send_status i num) w else w"
  have "scan_inv packets ?w" using "2.prems"(1) by (simp add: scan_inv_emit)
  moreover have "addable packets (uint p)" using "2.prems"(3) by (intro addable_fresh) auto
  ultimately show ?case
    using send_probe_inv[of packets ?w "uint p" fam skip rtt False] by (simp add: Let_def)
next
  case (3 fam skip i num p q rest packets rtt w)
  let ?w = "if i mod 100 = 0 then emit (Comm_send_status i num) w else w"
  have i0: "scan_inv packets ?w" using "3.prems"(1) by (simp add: scan_inv_emit)
  have a0: "addable packets (uint p)" using "3.prems"(3) by (intro addable_fresh) auto
  obtain t1 r1 w1 where s1: "send_probe fam skip (uint p) packets rtt False ?w = (t1, r1, w1)"
    by (cases "send_probe fam skip (uint p) packets rtt False ?w")
  have i1: "scan_inv t1 w1" and d1: "dport ` set t1 \<subseteq> insert p (dport ` set packets)"
    using send_probe_inv[OF i0 a0, of fam skip rtt False] s1 by (auto split: if_splits)
  have "q \<notin> dport ` set t1" using d1 "3.prems"(2,3) by auto
  then have a1: "addable t1 (uint q)" by (rule addable_fresh)
  obtain t2 r2 w2 where s2: "send_probe fam skip (uint q) t1 r1 True w1 = (t2, r2, w2)"
    by (cases "send_probe fam skip (uint q) t1 r1 True w1")
  have i2: "scan_inv t2 w2" and d2: "dport ` set t2 \<subseteq> insert q (dport ` set t1)"
    using send_probe_inv[OF i1 a1, of fam skip r1 True] s2 by (auto split: if_splits)
  have "dport ` set t2 \<subseteq> insert q (insert p (dport ` set packets))" using d1 d2 by blast
  moreover have "insert q (insert p (dport ` set packets)) \<inter> set rest = {}"
    using "3.prems"(2,3) by auto
  ultimately have "dport ` set t2 \<inter> set rest = {}" by blast
  then have dj: "dport ` set t2 \<inter> set rest = {}" .
  have dr: "distinct rest" using "3.prems"(2) by simp
  show ?case
    using "3.IH"[OF refl refl s1[symmetric] refl refl s2[symmetric] refl i2 dr dj] s1 s2
    by (simp add: Let_def)
qed

lemma retry_ok_addable: "table_ok tr t \<Longrightarrow> retry_ok t r \<Longrightarrow> addable t r"
proof (cases "r = 0")
  case True
  then show ?thesis by (simp add: addable_def)
next
  case False
  assume "table_ok tr t" "retry_ok t r"
  then obtain e where e: "e \<in> set t" "uint (dport e) = r" "retries e < NUM_RETRIES"
    using False by (auto simp: retry_ok_def)
  have "word_of_int r = dport e" using e(2) by auto
  moreover have "get_packet t (dport e) = Some e"
    using \<open>table_ok tr t\<close> e(1) by (simp add: table_ok_def get_packet_distinct)
  ultimately show ?thesis using e(3) by (simp add: addable_def)
qed

lemma last_retry_candidate:
  assumes "last_retry 0 ms \<noteq> 0"
  shows "\<exists>m \<in> set ms. retry_candidate m \<and> uint (dport (fst m)) = last_retry 0 ms"
proof -
  let ?cs = "filter retry_candidate ms"
  have ne: "?cs \<noteq> []" using assms by (auto simp: last_retry_def)
  then have "last ?cs \<in> set ?cs" by (rule last_in_set)
  moreover have "last_retry 0 ms = uint (dport (fst (last ?cs)))"
    using ne by (cases ?cs) (simp_all add: last_retry_def)
  ultimately show ?thesis by auto
qed

lemma rm_dead_packets_inv:
  assumes "scan_inv l w"
  shows "scan_inv (fst (rm_dead_packets l rtt w)) (snd (snd (rm_dead_packets l rtt w)))
         \<and> retry_ok (fst (rm_dead_packets l rtt w)) (fst (snd (rm_dead_packets l rtt w)))"
proof -
  let ?ms = "death_marks (clock w) (ticks w) rtt l"
  let ?l = "map fst (filter (\<lambda>m. \<not> swept m) ?ms)"
  have r: "rm_dead_packets l rtt w = (?l, last_retry 0 ?ms, w\<lparr>ticks := ticks w + length l\<rparr>)"
    by (simp add: rm_dead_packets_def rm_dead_loop_eq)
  have sub: "set ?l \<subseteq> set l"
  proof -
    have "set ?l \<subseteq> fst ` set ?ms" by auto
    also have "fst ` set ?ms = set l" by (metis list.set_map map_fst_death_marks)
    finally show ?thesis .
  qed
  have "distinct (map dport l)" using assms by (simp add: scan_inv_def table_ok_def)
  then have "distinct (map dport (map fst ?ms))" by simp
  then have "distinct (map (dport \<circ> fst) (filter (\<lambda>m. \<not> swept m) ?ms))"
    unfolding map_map by (rule distinct_map_filter)
  then have dist: "distinct (map dport ?l)" by simp
  have inv: "scan_inv ?l (w\<lparr>ticks := ticks w + length l\<rparr>)"
    using assms sub dist by (auto simp: scan_inv_def table_ok_def)
  have "retry_ok ?l (last_retry 0 ?ms)"
    unfolding retry_ok_def
  proof
    assume "last_retry 0 ?ms \<noteq> 0"
    then obtain m where m: "m \<in> set ?ms" "retry_candidate m" "uint (dport (fst m)) = last_retry 0 ?ms"
      using last_retry_candidate by blast
    then have "\<not> swept m" by (simp add: retry_candidate_def swept_def)
    then have "fst m \<in> set ?l" using m(1) by auto
    moreover have "retries (fst m) < NUM_RETRIES" using m(2) by (simp add: retry_candidate_def)
    ultimately show "\<exists>e \<in> set ?l. uint (dport e) = last_retry 0 ?ms \<and> retries e < NUM_RETRIES"
      using m(3) by blast
  qed
  then show ?thesis using inv by (simp add: r)
qed

lemma retry_loop_inv:
  assumes "scan_inv packets w" "retry_ok packets retry"
  shows "scan_inv (fst (snd (retry_loop skip i retry packets rtt w)))
                  (snd (snd (snd (retry_loop skip i retry packets rtt w))))
         \<and> retry_ok (fst (snd (retry_loop skip i retry packets rtt w)))
                     (fst (retry_loop skip i retry packets rtt w))"
  using assms
proof (induction skip i retry packets rtt w rule: retry_loop.induct)
  case (1 skip i retry packets rtt w)
  show ?case
  proof (cases "retry \<noteq> 0 \<and> i < 2")
    case False
    then have e: "retry_loop skip i retry packets rtt w = (retry, packets, rtt, w)"
      by (subst retry_loop.simps) auto
    show ?thesis using "1.prems" by (simp add: e)
  next
    case True
    obtain t1 r1 w1 where s1: "send_probe AF_INET skip retry packets rtt False w = (t1, r1, w1)"
      by (cases "send_probe AF_INET skip retry packets rtt False w")
    have a: "addable packets retry"
      using "1.prems" retry_ok_addable by (auto simp: scan_inv_def)
    have i1: "scan_inv t1 w1"
      using send_probe_inv[OF "1.prems"(1) a, of AF_INET skip rtt False] s1 by simp
    obtain t2 retry2 w2 where s2: "rm_dead_packets t1 r1 w1 = (t2, retry2, w2)"
      by (cases "rm_dead_packets t1 r1 w1")
    have i2: "scan_inv t2 w2" and k2: "retry_ok t2 retry2"
      using rm_dead_packets_inv[OF i1, of r1] s2 by simp_all
    have i3: "scan_inv t2 (emit (Packets t2) w2)"
      using i2 by (rule scan_inv_emit_Packets)
    have e: "retry_loop skip i retry packets rtt w
        = retry_loop skip (i + 1) retry2 t2 r1 (emit (Packets t2) w2)"
      using True s1 s2 by (subst retry_loop.simps) (simp add: Let_def)
    show ?thesis
      unfolding e
      using "1.IH"[OF True refl s1[symmetric] refl refl s2[symmetric] refl refl i3 k2] .
  qed
qed

lemma tail_loop_inv:
  assumes "scan_inv packets w"
  shows "trace_ok (trace (snd (snd (snd (tail_loop fuel skip packets rtt w)))))"
  using assms
proof (induction fuel skip packets rtt w rule: tail_loop.induct)
  case (1 fuel skip rtt w)
  then show ?case by (simp add: scan_inv_def)
next
  case (2 skip p l rtt w)
  then show ?case by (simp add: scan_inv_def)
next
  case (3 fuel skip p l rtt w)
  obtain t1 retry1 w1 where s1: "rm_dead_packets (p # l) rtt w = (t1, retry1, w1)"
    by (cases "rm_dead_packets (p # l) rtt w")
  have i1: "scan_inv t1 w1" and k1: "retry_ok t1 retry1"
    using rm_dead_packets_inv[OF "3.prems", of rtt] s1 by simp_all
  have i1': "scan_inv t1 (emit (Packets t1) w1)"
    using i1 by (rule scan_inv_emit_Packets)
  obtain retry2 t2 r2 w2 where s2: "retry_loop skip 0 retry1 t1 rtt (emit (Packets t1) w1) = (retry2, t2, r2, w2)"
    by (cases "retry_loop skip 0 retry1 t1 rtt (emit (Packets t1) w1)")
  have i2: "scan_inv t2 w2" and k2: "retry_ok t2 retry2"
    using retry_loop_inv[OF i1' k1, of skip 0 rtt] s2 by simp_all
  have a2: "addable t2 retry2"
    using i2 k2 retry_ok_addable by (auto simp: scan_inv_def)
  obtain t3 r3 w3 where s3: "send_probe AF_INET skip retry2 t2 r2 True w2 = (t3, r3, w3)"
    by (cases "send_probe AF_INET skip retry2 t2 r2 True w2")
  have i3: "scan_inv t3 w3"
    using send_probe_inv[OF i2 a2, of AF_INET skip r2 True] s3 by simp
  show ?case
    using "3.IH"[OF refl s1[symmetric] refl refl refl s2[symmetric] refl refl refl s3[symmetric] refl i3] s1 s2 s3
    by (simp add: Let_def)
qed

text \<open>What the two predicates of the statement say, without the recursion.\<close>

lemma trace_ok_iff:
  "trace_ok tr \<longleftrightarrow>
     (\<forall>evs t tr'. tr = evs @ Packets t # tr' \<longrightarrow>
        (\<forall>e \<in> set t. retries e \<le> NUM_RETRIES \<and> probed tr' (dport e)))"
proof (induction tr)
  case Nil
  show ?case by simp
next
  case (Cons ev tr)
  show ?case
  proof
    assume ok: "trace_ok (ev # tr)"
    show "\<forall>evs t tr'. ev # tr = evs @ Packets t # tr' \<longrightarrow>
        (\<forall>e \<in> set t. retries e \<le> NUM_RETRIES \<and> probed tr' (dport e))"
    proof (intro allI impI)
      fix evs t tr' assume eq: "ev # tr = evs @ Packets t # tr'"
      show "\<forall>e \<in> set t. retries e \<le> NUM_RETRIES \<and> probed tr' (dport e)"
      proof (cases evs)
        case Nil
        then have "ev = Packets t" "tr = tr'" using eq by simp_all
        then show ?thesis using ok by (simp add: list_all_iff)
      next
        case (Cons a evs')
        then have "tr = evs' @ Packets t # tr'" using eq by simp
        moreover have "trace_ok tr" using ok by simp
        ultimately show ?thesis using Cons.IH by blast
      qed
    qed
  next
    assume r: "\<forall>evs t tr'. ev # tr = evs @ Packets t # tr' \<longrightarrow>
        (\<forall>e \<in> set t. retries e \<le> NUM_RETRIES \<and> probed tr' (dport e))"
    have "\<forall>evs t tr'. tr = evs @ Packets t # tr' \<longrightarrow>
        (\<forall>e \<in> set t. retries e \<le> NUM_RETRIES \<and> probed tr' (dport e))"
    proof (intro allI impI)
      fix evs t tr' assume "tr = evs @ Packets t # tr'"
      then have "ev # tr = (ev # evs) @ Packets t # tr'" by simp
      then show "\<forall>e \<in> set t. retries e \<le> NUM_RETRIES \<and> probed tr' (dport e)"
        using r by blast
    qed
    then have "trace_ok tr" using Cons.IH by simp
    moreover have "\<forall>e \<in> set t. retries e \<le> NUM_RETRIES \<and> probed tr (dport e)" if "ev = Packets t" for t
    proof -
      have "ev # tr = [] @ Packets t # tr" using that by simp
      then show ?thesis using r by blast
    qed
    ultimately show "trace_ok (ev # tr)"
      by (cases ev) (simp_all add: list_all_iff)
  qed
qed

lemma probed_iff: "probed tr p \<longleftrightarrow> (\<exists>seq. Sendto p seq TH_SYN True \<in> set tr)"
proof -
  have "probed tr p \<longleftrightarrow> (\<exists>ev \<in> set tr. \<exists>seq. ev = Sendto p seq TH_SYN True)"
    unfolding probed_def list_ex_iff
    by (intro bex_cong refl) (auto split: event.splits)
  then show ?thesis by blast
qed

text \<open>
  Claim C5, as the code has it. On a port list without duplicates, every table that
  \<^verbatim>\<open>scan\<close> assigns to \<^verbatim>\<open>packets\<close>, in the pairwise loop and in the tail loop, holds only
  entries whose port has had a SYN sent to it with success and whose retry count is at
  most \<^verbatim>\<open>NUM_RETRIES\<close> (lemmas \<open>trace_ok_iff\<close> and \<open>probed_iff\<close>). The run is taken as far
  as the tail loop gets in \<open>fuel\<close> turns, so the statement covers the runs that do not end.
\<close>

theorem scan_retries_bounded:
  assumes "distinct (ports env)" and "trace_ok (trace w)"
  shows "trace_ok (trace (snd (scan fuel env rtt w)))"
proof -
  let ?fam = "if v4mapped env then AF_INET else AF_INET6"
  obtain soc w0 where r: "rawsocket ?fam env w = (soc, w0)" by (cases "rawsocket ?fam env w")
  have ok0: "trace_ok (trace w0)"
    using r assms(2) by (auto simp: rawsocket_def emit_def split: if_splits)
  show ?thesis
  proof (cases "soc < 0")
    case True
    then show ?thesis using r ok0 by (simp add: scan_def Let_def)
  next
    case False
    let ?num = "int (length (ports env))"
    obtain t1 r1 w1 where s1: "scan_ports ?fam (datalink_size env) 0 ?num (ports env) [] rtt w0 = (t1, r1, w1)"
      by (cases "scan_ports ?fam (datalink_size env) 0 ?num (ports env) [] rtt w0")
    have i0: "scan_inv [] w0" using ok0 by (simp add: scan_inv_def)
    have i1: "scan_inv t1 w1"
      using scan_ports_inv[OF i0 assms(1), of ?fam "datalink_size env" 0 ?num rtt] s1 by simp
    obtain d t2 r2 w2 where s2:
      "(if ?fam = AF_INET then tail_loop fuel (datalink_size env) t1 r1 w1 else (True, t1, r1, w1)) = (d, t2, r2, w2)"
      by (cases "if ?fam = AF_INET then tail_loop fuel (datalink_size env) t1 r1 w1 else (True, t1, r1, w1)")
    have ok2: "trace_ok (trace w2)"
      using s2 tail_loop_inv[OF i1, of fuel "datalink_size env" r1] i1
      by (auto simp: scan_inv_def split: if_splits)
    show ?thesis
      using r False s1 s2 ok2
      by (auto simp: scan_def Let_def emit_def)
  qed
qed

theorem scan_retries_bounded_witness:
  "trace_ok (trace (snd (scan 10 (eth_env [80]) (htonl (2 ^ 28)) silent_world)))"
  using scan_retries_bounded [of "eth_env [80]" silent_world 10 "htonl (2 ^ 28)"]
  by (simp add: eth_env_def silent_world_def)

text \<open>
  Claim C5 as stated, with fewer than two retransmissions for every entry, fails on a
  silent target: the sweep hands out a port as long as its retry count is below 2, so
  the entry for port 80 is retransmitted twice and stands in the table with retry count 2
  until the next sweep removes it.
\<close>

theorem scan_retries_counterexample:
  "Packets [\<lparr>dport = 80, when' = maketime \<lparr>tv_sec = 12, tv_usec = 0\<rparr>, retries = 2\<rparr>]
     \<in> set (trace (snd (scan 10 (eth_env [80]) (htonl (2 ^ 28)) silent_world)))
   \<and> \<not> retries \<lparr>dport = 80, when' = maketime \<lparr>tv_sec = 12, tv_usec = 0\<rparr>, retries = 2\<rparr> < NUM_RETRIES"
  by code_simp

subsection \<open>The value \<^verbatim>\<open>scan\<close> returns\<close>

lemma rawsocket_fails_iff:
  "fst (rawsocket (if v4mapped env then AF_INET else AF_INET6) env w) < 0
     \<longleftrightarrow> socket_ret env < 0 \<or> (v4mapped env \<and> setsockopt_ret env < 0)"
  by (auto simp: rawsocket_def)

lemma sends_rawsocket [simp]: "sends (snd (rawsocket fam env w)) = sends w"
  by (simp add: rawsocket_def emit_def)

text \<open>
  The value \<^verbatim>\<open>scan\<close> returns depends on the socket alone. It is \<open>-1\<close>, before any packet is
  sent, when the raw socket cannot be opened (\<^verbatim>\<open>socket\<close> fails, or for IPv4 \<^verbatim>\<open>setsockopt\<close>
  does). When the socket opens, whatever \<^verbatim>\<open>bpf_open_live\<close> returned and whatever the capture
  delivers, \<^verbatim>\<open>scan\<close> returns 0 if it returns at all; on the IPv6 path, which has no tail loop,
  it always returns.
\<close>

lemma scan_return_value:
  "(socket_ret env < 0 \<or> (v4mapped env \<and> setsockopt_ret env < 0) \<longrightarrow>
      fst (scan fuel env rtt w) = Some (- 1) \<and> sends (snd (scan fuel env rtt w)) = sends w)
   \<and> (\<not> (socket_ret env < 0 \<or> (v4mapped env \<and> setsockopt_ret env < 0)) \<longrightarrow>
      (fst (scan fuel env rtt w) = Some 0 \<or> fst (scan fuel env rtt w) = None))
   \<and> (\<not> socket_ret env < 0 \<and> \<not> v4mapped env \<longrightarrow> fst (scan fuel env rtt w) = Some 0)"
proof -
  let ?fam = "if v4mapped env then AF_INET else AF_INET6"
  obtain soc w0 where r: "rawsocket ?fam env w = (soc, w0)" by (cases "rawsocket ?fam env w")
  have f: "soc < 0 \<longleftrightarrow> socket_ret env < 0 \<or> (v4mapped env \<and> setsockopt_ret env < 0)"
    using rawsocket_fails_iff[of env w] r by simp
  have s: "sends w0 = sends w"
    using sends_rawsocket[of ?fam env w] r by simp
  show ?thesis
  proof (cases "soc < 0")
    case True
    then show ?thesis using r f s by (auto simp: scan_def Let_def)
  next
    case False
    then show ?thesis
      using r f by (auto simp: scan_def Let_def split_beta)
  qed
qed

lemma scan_return_value_example:
  "fst (scan 10 ((eth_env [80])\<lparr>socket_ret := - 1\<rparr>) (htonl (2 ^ 28)) silent_world) = Some (- 1)
   \<and> sends (snd (scan 10 ((eth_env [80])\<lparr>socket_ret := - 1\<rparr>) (htonl (2 ^ 28)) silent_world)) = 0
   \<and> fst (scan 10 ((eth_env [80])\<lparr>v4mapped := False\<rparr>) (htonl (2 ^ 28)) silent_world) = Some 0"
  using scan_return_value [of "(eth_env [80])\<lparr>socket_ret := - 1\<rparr>" 10 "htonl (2 ^ 28)" silent_world]
        scan_return_value [of "(eth_env [80])\<lparr>v4mapped := False\<rparr>" 10 "htonl (2 ^ 28)" silent_world]
  by (simp add: eth_env_def silent_world_def)

text \<open>
  Claim C4. \<^verbatim>\<open>scan\<close> is to return \<open>-1\<close>, aborting the scan, exactly when opening the raw send
  socket or the receive filter fails, and 0 when the scan completes. It does so for the
  socket. The handle that \<^verbatim>\<open>openbpf\<close> returns is never tested, where \<^verbatim>\<open>find_rtt\<close> has
  \<^verbatim>\<open>if (bpf < 0) { close (soc); return -1; }\<close> right after the same call: with
  \<^verbatim>\<open>bpf_open_live\<close> returning \<open>-1\<close> on the port list 80, \<^verbatim>\<open>scan\<close> goes on to send its probe
  and the two retransmissions, reads from the failed handle (\<^verbatim>\<open>Bpf_next_tv\<close>), closes it
  (\<^verbatim>\<open>Bpf_close\<close>) and returns 0. The trace is in the order of the calls; the capture
  calls on the failed handle are taken to deliver no frame.
\<close>

theorem scan_ignores_filter_failure:
  "bpf_open_live_ret filter_failure_env < 0
   \<and> fst (scan 10 filter_failure_env (htonl (2 ^ 28)) silent_world) = Some 0
   \<and> rev (trace (snd (scan 10 filter_failure_env (htonl (2 ^ 28)) silent_world))) =
     [Comm_send_status 0 1,
      Sendto 80 (maketime \<lparr>tv_sec = 0, tv_usec = 0\<rparr>) TH_SYN True,
      Packets [\<lparr>dport = 80, when' = maketime \<lparr>tv_sec = 0, tv_usec = 0\<rparr>, retries = 0\<rparr>],
      Packets [\<lparr>dport = 80, when' = maketime \<lparr>tv_sec = 0, tv_usec = 0\<rparr>, retries = 0\<rparr>],
      Sendto 80 (maketime \<lparr>tv_sec = 6, tv_usec = 0\<rparr>) TH_SYN True,
      Packets [\<lparr>dport = 80, when' = maketime \<lparr>tv_sec = 6, tv_usec = 0\<rparr>, retries = 1\<rparr>],
      Packets [\<lparr>dport = 80, when' = maketime \<lparr>tv_sec = 6, tv_usec = 0\<rparr>, retries = 1\<rparr>],
      Sendto 80 (maketime \<lparr>tv_sec = 12, tv_usec = 0\<rparr>) TH_SYN True,
      Packets [\<lparr>dport = 80, when' = maketime \<lparr>tv_sec = 12, tv_usec = 0\<rparr>, retries = 2\<rparr>],
      Packets [],
      Bpf_next_tv \<lparr>tv_sec = 0, tv_usec = 125000\<rparr>,
      Packets [],
      Comm_send_status 1 1, Close_soc, Bpf_close]"
  by code_simp


subsection \<open>RTT discovery\<close>





lemma misses_0 [simp]: "misses cs 0 = 0" by (simp add: misses_def)
lemma replies_0 [simp]: "replies cs 0 = 0" by (simp add: replies_def)








lemma samples_of_emit:
  "samples_of (trace (emit ev w)) = samples_of (trace w) @ (case ev of Rtt_sample v \<Rightarrow> [v] | _ \<Rightarrow> [])"
  by (simp add: emit_def)






















end
